theory Spec2Isabelle
  imports Main
begin

section \<open>The RatOS init supervisor (ratos-init.c)\<close>

text \<open>
  A shallow embedding of the service supervisor. The supervisor is one process talking to
  a kernel; the kernel is not part of the repository, so every system call that returns
  something the code looks at takes its answer from a script of answers carried in the
  state (one list per call), and every system call made is appended to a trace. What is
  proved holds for every script; where a theorem needs the kernel to behave in a certain
  way, that is a stated hypothesis on the script.
\<close>

subsection \<open>Data model\<close>

datatype restart_t = R_NO | R_ON_FAILURE | R_ALWAYS

text \<open>
  \<^verbatim>\<open>typedef struct service\<close>. \<open>execcmd\<close> is a pointer (\<open>None\<close> is \<open>NULL\<close>);
  \<open>running\<close> is an \<open>int\<close> that only ever holds 0 or 1.
\<close>

record service =
  name :: string
  execcmd :: "string option"
  restart :: restart_t
  pid :: int
  running :: bool
  logfile :: string

datatype signal = SIGTERM | SIGKILL | SIGCHLD | SIGINT

datatype log_msg =
    Started string int
  | Stopped string int
  | ServiceExited string int int
  | ShuttingDown

text \<open>The system and library calls of the supervisor, as they appear in the trace.\<close>

datatype event =
    EvFork
  | EvKill int signal
  | EvWaitpid int
  | EvUsleep nat
  | EvSleep nat
  | EvOpen string
  | EvDup2 int int
  | EvClose int
  | EvSetsid
  | EvExecl string "string list"
  | EvPerror string
  | EvPrintf log_msg
  | EvSync
  | EvAccess string

text \<open>
  The state of the process: the registry (\<open>services\<close> holds the first \<open>nservices\<close> slots
  of the static array, so \<open>nservices\<close> is its length), the two signal flags, the trace,
  and the kernel's scripted answers.
\<close>

record sup_state =
  services :: "service list"
  need_reap :: bool
  terminate :: bool
  trace :: "event list"
  fork_rets :: "int list"
  wait_rets :: "(int \<times> int) list"
  open_rets :: "int list"
  execl_ok :: "bool list"
  access_rets :: "int list"

text \<open>
  How a piece of code ends: it returns to its caller in some state, the process ends with
  an exit status (\<open>_exit\<close>, or \<open>main\<close> returning), or the process image is replaced by
  a successful \<open>execl\<close>.
\<close>

datatype outcome =
    Returns sup_state
  | Exited int sup_state
  | Replaced string "string list" sup_state

fun final_state :: "outcome \<Rightarrow> sup_state" where
  "final_state (Returns st) = st"
| "final_state (Exited c st) = st"
| "final_state (Replaced p args st) = st"

fun and_then :: "outcome \<Rightarrow> (sup_state \<Rightarrow> outcome) \<Rightarrow> outcome" where
  "and_then (Returns st) f = f st"
| "and_then (Exited c st) f = Exited c st"
| "and_then (Replaced p args st) f = Replaced p args st"

definition MAX_SVC :: nat where
  "MAX_SVC = 128"

definition MAX_LINE :: nat where
  "MAX_LINE = 1024"

definition SERVICES_DIR :: string where
  "SERVICES_DIR = ''/etc/ratos/services''"

definition LOGDIR :: string where
  "LOGDIR = ''/var/log''"

text \<open>
  \<open>WIFEXITED\<close> and \<open>WEXITSTATUS\<close> come from the system's \<open>sys/wait.h\<close>, not from
  the repository: they are parameters of the model.
\<close>

record wait_macros =
  WIFEXITED :: "int \<Rightarrow> bool"
  WEXITSTATUS :: "int \<Rightarrow> int"

text \<open>The Linux encoding of a wait status, for evaluating the model on concrete inputs.\<close>

definition linux_wait :: wait_macros where
  "linux_wait = \<lparr> WIFEXITED = (\<lambda>s. s mod 128 = 0), WEXITSTATUS = (\<lambda>s. (s div 256) mod 256) \<rparr>"

subsection \<open>The kernel interface\<close>

definition emit :: "event \<Rightarrow> sup_state \<Rightarrow> sup_state" where
  "emit e st = st\<lparr>trace := trace st @ [e]\<rparr>"

text \<open>A call whose script has run out fails (\<open>-1\<close>), as every one of them may.\<close>

definition sys_fork :: "sup_state \<Rightarrow> int \<times> sup_state" where
  "sys_fork st =
     (case fork_rets st of
        [] \<Rightarrow> (-1, emit EvFork st)
      | r # rs \<Rightarrow> (r, emit EvFork (st\<lparr>fork_rets := rs\<rparr>)))"

definition sys_waitpid :: "int \<Rightarrow> sup_state \<Rightarrow> (int \<times> int) \<times> sup_state" where
  "sys_waitpid p st =
     (case wait_rets st of
        [] \<Rightarrow> ((-1, 0), emit (EvWaitpid p) st)
      | r # rs \<Rightarrow> (r, emit (EvWaitpid p) (st\<lparr>wait_rets := rs\<rparr>)))"

definition sys_open :: "string \<Rightarrow> sup_state \<Rightarrow> int \<times> sup_state" where
  "sys_open path st =
     (case open_rets st of
        [] \<Rightarrow> (-1, emit (EvOpen path) st)
      | r # rs \<Rightarrow> (r, emit (EvOpen path) (st\<lparr>open_rets := rs\<rparr>)))"

definition sys_execl :: "string \<Rightarrow> string list \<Rightarrow> sup_state \<Rightarrow> bool \<times> sup_state" where
  "sys_execl path args st =
     (case execl_ok st of
        [] \<Rightarrow> (False, emit (EvExecl path args) st)
      | r # rs \<Rightarrow> (r, emit (EvExecl path args) (st\<lparr>execl_ok := rs\<rparr>)))"

definition sys_access :: "string \<Rightarrow> sup_state \<Rightarrow> int \<times> sup_state" where
  "sys_access path st =
     (case access_rets st of
        [] \<Rightarrow> (-1, emit (EvAccess path) st)
      | r # rs \<Rightarrow> (r, emit (EvAccess path) (st\<lparr>access_rets := rs\<rparr>)))"

subsection \<open>Signal handlers\<close>

definition sigchld_handler :: "sup_state \<Rightarrow> sup_state" where
  "sigchld_handler st = st\<lparr>need_reap := True\<rparr>"

definition sigterm_handler :: "sup_state \<Rightarrow> sup_state" where
  "sigterm_handler st = st\<lparr>terminate := True\<rparr>"

text \<open>
  The dispositions \<open>main\<close> installs with \<open>sigaction\<close>: \<open>SIGCHLD\<close> to the first handler,
  \<open>SIGTERM\<close> and \<open>SIGINT\<close> to the second. Nothing else reaches process 1.
\<close>

fun deliver :: "signal \<Rightarrow> sup_state \<Rightarrow> sup_state" where
  "deliver SIGCHLD st = sigchld_handler st"
| "deliver SIGTERM st = sigterm_handler st"
| "deliver SIGINT st = sigterm_handler st"
| "deliver SIGKILL st = st"

subsection \<open>Parsing a service file\<close>

definition is_lead_ws :: "char \<Rightarrow> bool" where
  "is_lead_ws c = (c = CHR '' '' \<or> c = CHR 0x09)"

definition is_trail_ws :: "char \<Rightarrow> bool" where
  "is_trail_ws c = (c = CHR 0x0A \<or> c = CHR 0x0D \<or> c = CHR '' '' \<or> c = CHR 0x09)"

definition trim :: "string \<Rightarrow> string" where
  "trim s = rev (dropWhile is_trail_ws (rev (dropWhile is_lead_ws s)))"

text \<open>The bytes of a buffer up to its first NUL: what the C string functions see.\<close>

definition c_str :: "string \<Rightarrow> string" where
  "c_str buf = takeWhile (\<lambda>c. c \<noteq> CHR 0x00) buf"

text \<open>
  \<open>strncpy(dst, src, n)\<close> into a buffer of \<open>n + 1\<close> bytes whose last byte is 0: the
  buffer then holds the first \<open>n\<close> bytes of \<open>src\<close>, padded with NULs.
\<close>

definition strncpy :: "string \<Rightarrow> nat \<Rightarrow> string" where
  "strncpy src n = take n src"

text \<open>\<open>tolower\<close> in the C locale (the program never calls \<open>setlocale\<close>).\<close>

definition tolower :: "char \<Rightarrow> char" where
  "tolower c =
     (case map_of (zip ''ABCDEFGHIJKLMNOPQRSTUVWXYZ'' ''abcdefghijklmnopqrstuvwxyz'') c of
        Some l \<Rightarrow> l
      | None \<Rightarrow> c)"

text \<open>\<open>strcasecmp(a, b) == 0\<close>.\<close>

definition strcasecmp_eq :: "string \<Rightarrow> string \<Rightarrow> bool" where
  "strcasecmp_eq a b = (map tolower a = map tolower b)"

text \<open>
  \<open>fgets(line, n + 1, f)\<close>: at most \<open>n\<close> bytes, stopping after a newline. The pair is
  the line read and the rest of the file.
\<close>

fun fgets :: "nat \<Rightarrow> string \<Rightarrow> string \<times> string" where
  "fgets 0 s = ([], s)"
| "fgets (Suc n) [] = ([], [])"
| "fgets (Suc n) (c # cs) =
     (if c = CHR 0x0A then ([c], cs)
      else (case fgets n cs of (l, r) \<Rightarrow> (c # l, r)))"

lemma fgets_rest_le: "length (snd (fgets n s)) \<le> length s"
  by (induction n s rule: fgets.induct) (auto split: prod.splits)

lemma fgets_rest_Suc: "length (snd (fgets (Suc n) (c # cs))) \<le> length cs"
  using fgets_rest_le [of n cs] by (auto split: prod.splits)

lemma fgets_line_rest: "(l, r) = fgets (MAX_LINE - Suc 0) (c # cs) \<Longrightarrow> length r < Suc (length cs)"
proof -
  assume "(l, r) = fgets (MAX_LINE - Suc 0) (c # cs)"
  then have "r = snd (fgets (MAX_LINE - Suc 0) (c # cs))"
    by (metis snd_conv)
  moreover have "MAX_LINE - Suc 0 = Suc 1022"
    by (simp add: MAX_LINE_def)
  ultimately show ?thesis
    using fgets_rest_Suc [of 1022 c cs] by simp
qed

text \<open>The successive results of \<open>fgets(line, sizeof(line), f)\<close> until it returns \<open>NULL\<close>.\<close>

function file_lines :: "string \<Rightarrow> string list" where
  "file_lines [] = []"
| "file_lines (c # cs) =
     (case fgets (MAX_LINE - 1) (c # cs) of (l, r) \<Rightarrow> l # file_lines r)"
  by pat_completeness auto
termination
  by (relation "measure length") (auto dest: fgets_line_rest)

text \<open>The three local buffers of \<open>parse_service_file\<close>.\<close>

record parse_bufs =
  buf_name :: string
  buf_exec :: string
  buf_restart :: string

definition init_bufs :: parse_bufs where
  "init_bufs = \<lparr> buf_name = '''', buf_exec = '''', buf_restart = ''no'' \<rparr>"

text \<open>\<open>strchr(line, '=')\<close> and the cut \<open>*p = 0\<close>: the text before and after the first \<open>=\<close>.\<close>

definition split_eq :: "string \<Rightarrow> (string \<times> string) option" where
  "split_eq line =
     (if CHR ''='' \<in> set line
      then Some (takeWhile (\<lambda>c. c \<noteq> CHR ''='') line, tl (dropWhile (\<lambda>c. c \<noteq> CHR ''='') line))
      else None)"

text \<open>The body of the \<open>while (fgets ...)\<close> loop.\<close>

definition parse_line :: "string \<Rightarrow> parse_bufs \<Rightarrow> parse_bufs" where
  "parse_line line b =
     (case split_eq (c_str line) of
        None \<Rightarrow> b
      | Some (k, v) \<Rightarrow>
          (let key = trim k; val = trim v in
           if strcasecmp_eq key ''name'' \<or> strcasecmp_eq key ''Name''
           then b\<lparr>buf_name := strncpy val 127\<rparr>
           else if strcasecmp_eq key ''execstart'' \<or> strcasecmp_eq key ''ExecStart''
           then b\<lparr>buf_exec := strncpy val (MAX_LINE - 1)\<rparr>
           else if strcasecmp_eq key ''restart'' \<or> strcasecmp_eq key ''Restart''
           then b\<lparr>buf_restart := strncpy val (MAX_LINE - 1)\<rparr>
           else b))"

fun parse_lines :: "string list \<Rightarrow> parse_bufs \<Rightarrow> parse_bufs" where
  "parse_lines [] b = b"
| "parse_lines (l # ls) b = parse_lines ls (parse_line l b)"

text \<open>
  The entry written into the slot: \<open>memset\<close> to zero, then the fields. \<open>strdup\<close> is
  taken to succeed (it fails only when memory has run out).
\<close>

definition restart_of :: "string \<Rightarrow> restart_t" where
  "restart_of r =
     (if strcasecmp_eq r ''always'' then R_ALWAYS
      else if strcasecmp_eq r ''on-failure'' then R_ON_FAILURE
      else R_NO)"

definition new_service :: "parse_bufs \<Rightarrow> service" where
  "new_service b =
     \<lparr> name = strncpy (buf_name b) 127,
       execcmd = Some (buf_exec b),
       restart = restart_of (buf_restart b),
       pid = 0,
       running = False,
       logfile = take 255 (LOGDIR @ ''/'' @ strncpy (buf_name b) 127 @ ''.log'') \<rparr>"

text \<open>
  \<open>parse_service_file\<close>. The argument is what \<open>fopen(path, "r")\<close> gives: \<open>None\<close> when
  the file cannot be opened, the bytes of the file otherwise.
\<close>

definition parse_service_file :: "string option \<Rightarrow> sup_state \<Rightarrow> sup_state" where
  "parse_service_file f st =
     (case f of
        None \<Rightarrow> st
      | Some content \<Rightarrow>
          (let b = parse_lines (file_lines content) init_bufs in
           if buf_name b = [] \<or> buf_exec b = [] then st
           else if length (services st) \<ge> MAX_SVC then st
           else st\<lparr>services := services st @ [new_service b]\<rparr>))"

text \<open>A directory entry as \<open>readdir\<close> returns it.\<close>

datatype d_type_t = DT_DIR | DT_REG | DT_OTHER

record dirent =
  d_type :: d_type_t
  d_name :: string

text \<open>
  The file system as \<open>load_services\<close> sees it: what \<open>opendir\<close> of the services
  directory lists (\<open>None\<close> when it fails) and what \<open>fopen\<close> of a path reads.
\<close>

record filesys =
  dir_entries :: "dirent list option"
  file_at :: "string \<Rightarrow> string option"

fun scan_dir :: "(string \<Rightarrow> string option) \<Rightarrow> dirent list \<Rightarrow> sup_state \<Rightarrow> sup_state" where
  "scan_dir fs [] st = st"
| "scan_dir fs (e # es) st =
     (if d_type e = DT_DIR then scan_dir fs es st
      else if d_name e \<noteq> [] \<and> hd (d_name e) = CHR ''.'' then scan_dir fs es st
      else scan_dir fs es
             (parse_service_file (fs (take 511 (SERVICES_DIR @ ''/'' @ d_name e))) st))"

definition load_services :: "filesys \<Rightarrow> sup_state \<Rightarrow> sup_state" where
  "load_services fsys st =
     (case dir_entries fsys of
        None \<Rightarrow> st
      | Some es \<Rightarrow> scan_dir (file_at fsys) es st)"

subsection \<open>Starting and stopping a service\<close>

text \<open>
  A \<open>service *\<close> argument is an index into the registry (\<open>None\<close> is \<open>NULL\<close>). The
  callers pass \<open>&services[i]\<close> with \<open>i < nservices\<close> only; a slot at or beyond
  \<open>nservices\<close> is zero-initialised static storage (\<open>execcmd\<close> is \<open>NULL\<close>, \<open>running\<close> is
  0), on which both functions return at once.
\<close>

definition set_slot :: "nat \<Rightarrow> service \<Rightarrow> sup_state \<Rightarrow> sup_state" where
  "set_slot i s st = st\<lparr>services := (services st)[i := s]\<rparr>"

text \<open>The child's side of \<open>start_service\<close>, from the \<open>fork\<close> to the \<open>_exit\<close>.\<close>

definition start_child :: "service \<Rightarrow> string \<Rightarrow> sup_state \<Rightarrow> outcome" where
  "start_child s cmd st =
     (case sys_open ''/dev/null'' st of (fdnull, st1) \<Rightarrow>
      let st2 = (if fdnull \<ge> 0 then emit (EvClose fdnull) (emit (EvDup2 fdnull 0) st1) else st1) in
      case sys_open (logfile s) st2 of (fdlog, st3) \<Rightarrow>
      let st4 = (if fdlog \<ge> 0
                 then (let st' = emit (EvDup2 fdlog 2) (emit (EvDup2 fdlog 1) st3)
                       in if fdlog > 2 then emit (EvClose fdlog) st' else st')
                 else st3);
          st5 = emit EvSetsid st4
      in
      case sys_execl ''/bin/sh'' [''sh'', ''-c'', cmd] st5 of (ok, st6) \<Rightarrow>
      if ok then Replaced ''/bin/sh'' [''sh'', ''-c'', cmd] st6
      else Exited 127 (emit (EvPerror ''execl'') st6))"

definition start_service :: "nat option \<Rightarrow> sup_state \<Rightarrow> outcome" where
  "start_service sp st =
     (case sp of
        None \<Rightarrow> Returns st
      | Some i \<Rightarrow>
          if i \<ge> length (services st) then Returns st
          else
            (let s = services st ! i in
             case execcmd s of
               None \<Rightarrow> Returns st
             | Some cmd \<Rightarrow>
                 (case sys_fork st of (p, st1) \<Rightarrow>
                  if p < 0 then Returns (emit (EvPerror ''fork'') st1)
                  else if p = 0 then start_child s cmd st1
                  else Returns (emit (EvPrintf (Started (name s) p))
                                  (set_slot i (s\<lparr>pid := p, running := True\<rparr>) st1)))))"

text \<open>
  The polling loop of \<open>stop_service\<close>, entered with the loop counter at \<open>i\<close>:
  \<^verbatim>\<open>for (; i<50; i++) { if (waitpid(pid, NULL, WNOHANG) == pid) break; usleep(100000); }\<close>
\<close>

function stop_poll :: "int \<Rightarrow> nat \<Rightarrow> sup_state \<Rightarrow> sup_state" where
  "stop_poll p i st =
     (if i < 50
      then (case sys_waitpid p st of (r, st1) \<Rightarrow>
              if fst r = p then st1
              else stop_poll p (Suc i) (emit (EvUsleep 100000) st1))
      else st)"
  by pat_completeness auto
termination
  by (relation "measure (\<lambda>(p, i, st). 50 - i)") auto

declare stop_poll.simps [simp del]

definition stop_service :: "nat option \<Rightarrow> sup_state \<Rightarrow> sup_state" where
  "stop_service sp st =
     (case sp of
        None \<Rightarrow> st
      | Some i \<Rightarrow>
          if i \<ge> length (services st) then st
          else
            (let s = services st ! i in
             if \<not> running s then st
             else
               (let st1 = emit (EvKill (- pid s) SIGTERM) st;
                    st2 = stop_poll (pid s) 0 st1
                in case sys_waitpid (pid s) st2 of (r, st3) \<Rightarrow>
                   let st4 = (if fst r \<noteq> pid s then emit (EvKill (- pid s) SIGKILL) st3 else st3)
                   in emit (EvPrintf (Stopped (name s) (pid s)))
                        (set_slot i (s\<lparr>running := False\<rparr>) st4))))"

subsection \<open>Handling a reaped child\<close>

text \<open>The \<open>for\<close> loop of \<open>handle_reaped\<close>, entered with the loop counter at \<open>i\<close>.\<close>

function handle_scan :: "wait_macros \<Rightarrow> int \<Rightarrow> int \<Rightarrow> nat \<Rightarrow> sup_state \<Rightarrow> outcome" where
  "handle_scan wm p status i st =
     (if i < length (services st)
      then (let s = services st ! i in
            if running s \<and> pid s = p
            then (let st1 = emit (EvPrintf (ServiceExited (name s) p status))
                              (set_slot i (s\<lparr>running := False\<rparr>) st);
                      exitcode = (if WIFEXITED wm status then WEXITSTATUS wm status else - 1)
                  in if restart s = R_ALWAYS \<or> (restart s = R_ON_FAILURE \<and> exitcode \<noteq> 0)
                     then start_service (Some i) (emit (EvSleep 1) st1)
                     else Returns st1)
            else handle_scan wm p status (Suc i) st)
      else Returns st)"
  by pat_completeness auto
termination
  by (relation "measure (\<lambda>(wm, p, status, i, st). length (services st) - i)") auto

declare handle_scan.simps [simp del]

definition handle_reaped :: "wait_macros \<Rightarrow> int \<Rightarrow> int \<Rightarrow> sup_state \<Rightarrow> outcome" where
  "handle_reaped wm p status st = handle_scan wm p status 0 st"

subsection \<open>What the calls leave alone\<close>

lemma emit_fields [simp]:
  "services (emit e st) = services st"
  "need_reap (emit e st) = need_reap st"
  "terminate (emit e st) = terminate st"
  "trace (emit e st) = trace st @ [e]"
  "fork_rets (emit e st) = fork_rets st"
  "wait_rets (emit e st) = wait_rets st"
  "open_rets (emit e st) = open_rets st"
  "execl_ok (emit e st) = execl_ok st"
  "access_rets (emit e st) = access_rets st"
  by (simp_all add: emit_def)

lemma set_slot_fields [simp]:
  "services (set_slot i s st) = (services st)[i := s]"
  "need_reap (set_slot i s st) = need_reap st"
  "terminate (set_slot i s st) = terminate st"
  "trace (set_slot i s st) = trace st"
  "fork_rets (set_slot i s st) = fork_rets st"
  "wait_rets (set_slot i s st) = wait_rets st"
  "open_rets (set_slot i s st) = open_rets st"
  "execl_ok (set_slot i s st) = execl_ok st"
  "access_rets (set_slot i s st) = access_rets st"
  by (simp_all add: set_slot_def)

lemma sys_fork_fields [simp]:
  "services (snd (sys_fork st)) = services st"
  "need_reap (snd (sys_fork st)) = need_reap st"
  "terminate (snd (sys_fork st)) = terminate st"
  "trace (snd (sys_fork st)) = trace st @ [EvFork]"
  "wait_rets (snd (sys_fork st)) = wait_rets st"
  "fork_rets (snd (sys_fork st)) = tl (fork_rets st)"
  "open_rets (snd (sys_fork st)) = open_rets st"
  "execl_ok (snd (sys_fork st)) = execl_ok st"
  "access_rets (snd (sys_fork st)) = access_rets st"
  by (simp_all add: sys_fork_def split: list.splits)

lemma sys_open_fields [simp]:
  "services (snd (sys_open path st)) = services st"
  "need_reap (snd (sys_open path st)) = need_reap st"
  "terminate (snd (sys_open path st)) = terminate st"
  "trace (snd (sys_open path st)) = trace st @ [EvOpen path]"
  "wait_rets (snd (sys_open path st)) = wait_rets st"
  "fork_rets (snd (sys_open path st)) = fork_rets st"
  "open_rets (snd (sys_open path st)) = tl (open_rets st)"
  "execl_ok (snd (sys_open path st)) = execl_ok st"
  "access_rets (snd (sys_open path st)) = access_rets st"
  by (simp_all add: sys_open_def split: list.splits)

lemma sys_execl_fields [simp]:
  "services (snd (sys_execl path args st)) = services st"
  "need_reap (snd (sys_execl path args st)) = need_reap st"
  "terminate (snd (sys_execl path args st)) = terminate st"
  "trace (snd (sys_execl path args st)) = trace st @ [EvExecl path args]"
  "wait_rets (snd (sys_execl path args st)) = wait_rets st"
  "fork_rets (snd (sys_execl path args st)) = fork_rets st"
  "open_rets (snd (sys_execl path args st)) = open_rets st"
  "execl_ok (snd (sys_execl path args st)) = tl (execl_ok st)"
  "access_rets (snd (sys_execl path args st)) = access_rets st"
  by (simp_all add: sys_execl_def split: list.splits)

lemma sys_access_fields [simp]:
  "services (snd (sys_access path st)) = services st"
  "need_reap (snd (sys_access path st)) = need_reap st"
  "terminate (snd (sys_access path st)) = terminate st"
  "trace (snd (sys_access path st)) = trace st @ [EvAccess path]"
  "wait_rets (snd (sys_access path st)) = wait_rets st"
  "fork_rets (snd (sys_access path st)) = fork_rets st"
  "open_rets (snd (sys_access path st)) = open_rets st"
  "execl_ok (snd (sys_access path st)) = execl_ok st"
  "access_rets (snd (sys_access path st)) = tl (access_rets st)"
  by (simp_all add: sys_access_def split: list.splits)

lemma sys_waitpid_fields [simp]:
  "services (snd (sys_waitpid p st)) = services st"
  "need_reap (snd (sys_waitpid p st)) = need_reap st"
  "terminate (snd (sys_waitpid p st)) = terminate st"
  "trace (snd (sys_waitpid p st)) = trace st @ [EvWaitpid p]"
  "wait_rets (snd (sys_waitpid p st)) = tl (wait_rets st)"
  "fork_rets (snd (sys_waitpid p st)) = fork_rets st"
  "open_rets (snd (sys_waitpid p st)) = open_rets st"
  "execl_ok (snd (sys_waitpid p st)) = execl_ok st"
  "access_rets (snd (sys_waitpid p st)) = access_rets st"
  by (simp_all add: sys_waitpid_def split: list.splits)

lemma sys_waitpid_result:
  "fst (sys_waitpid p st) = (case wait_rets st of [] \<Rightarrow> (- 1, 0) | r # rs \<Rightarrow> r)"
  by (simp add: sys_waitpid_def split: list.splits)

lemma sys_fork_result:
  "fst (sys_fork st) = (case fork_rets st of [] \<Rightarrow> - 1 | r # rs \<Rightarrow> r)"
  by (simp add: sys_fork_def split: list.splits)

lemma sys_open_result:
  "fst (sys_open path st) = (case open_rets st of [] \<Rightarrow> - 1 | r # rs \<Rightarrow> r)"
  by (simp add: sys_open_def split: list.splits)

lemma sys_execl_result:
  "fst (sys_execl path args st) = (case execl_ok st of [] \<Rightarrow> False | r # rs \<Rightarrow> r)"
  by (simp add: sys_execl_def split: list.splits)

lemma sys_access_result:
  "fst (sys_access path st) = (case access_rets st of [] \<Rightarrow> - 1 | r # rs \<Rightarrow> r)"
  by (simp add: sys_access_def split: list.splits)

lemma start_child_wait_rets: "wait_rets (final_state (start_child s cmd st)) = wait_rets st"
  by (simp add: start_child_def Let_def case_prod_beta)

lemma start_child_services: "services (final_state (start_child s cmd st)) = services st"
  by (simp add: start_child_def Let_def case_prod_beta)

lemma start_service_wait_rets: "wait_rets (final_state (start_service sp st)) = wait_rets st"
  by (simp add: start_service_def Let_def case_prod_beta start_child_wait_rets split: option.splits)

lemma start_service_length:
  "length (services (final_state (start_service sp st))) = length (services st)"
  by (simp add: start_service_def Let_def case_prod_beta start_child_services split: option.splits)

lemma handle_scan_wait_rets: "wait_rets (final_state (handle_scan wm p status i st)) = wait_rets st"
proof (induction wm p status i st rule: handle_scan.induct)
  case (1 wm p status i st)
  show ?case
  proof (cases "i < length (services st)")
    case False
    then show ?thesis by (simp add: handle_scan.simps)
  next
    case True
    show ?thesis
    proof (cases "running (services st ! i) \<and> pid (services st ! i) = p")
      case False
      with True "1.IH" show ?thesis
        by (subst handle_scan.simps) (simp add: Let_def start_service_wait_rets)
    next
      case hit: True
      with True show ?thesis
        by (subst handle_scan.simps) (simp add: Let_def start_service_wait_rets)
    qed
  qed
qed

lemma handle_reaped_wait_rets:
  "handle_reaped wm p status st = Returns st' \<Longrightarrow> wait_rets st' = wait_rets st"
  using handle_scan_wait_rets [of wm p status 0 st] by (simp add: handle_reaped_def)

lemma stop_poll_services: "services (stop_poll p i st) = services st"
proof (induction p i st rule: stop_poll.induct)
  case (1 p i st)
  have "services (stop_poll p (Suc i) (emit (EvUsleep 100000) (snd (sys_waitpid p st)))) =
        services st"
    if "i < 50" and "fst (fst (sys_waitpid p st)) \<noteq> p"
    using that "1.IH" [of "fst (sys_waitpid p st)" "snd (sys_waitpid p st)"] by simp
  then show ?case
    by (subst stop_poll.simps) (simp add: case_prod_beta)
qed

lemma stop_service_length: "length (services (stop_service sp st)) = length (services st)"
  by (simp add: stop_service_def Let_def case_prod_beta stop_poll_services split: option.splits)

subsection \<open>The supervise loop and the shutdown sequence of \<open>main\<close>\<close>

text \<open>
  \<^verbatim>\<open>while ((pid = waitpid(-1, &status, WNOHANG)) > 0) handle_reaped(pid, status);\<close>
  A child's side of a \<open>fork\<close> inside \<open>handle_reaped\<close> ends the process, and the loop
  with it.
\<close>

function reap_children :: "wait_macros \<Rightarrow> sup_state \<Rightarrow> outcome" where
  "reap_children wm st =
     (case sys_waitpid (- 1) st of (r, st1) \<Rightarrow>
        if fst r > 0
        then (case handle_reaped wm (fst r) (snd r) st1 of
                Returns st2 \<Rightarrow> reap_children wm st2
              | Exited c st2 \<Rightarrow> Exited c st2
              | Replaced path args st2 \<Rightarrow> Replaced path args st2)
        else Returns st1)"
  by pat_completeness auto
termination
proof (relation "measure (\<lambda>(wm, st). length (wait_rets st))")
  fix wm :: wait_macros and st x st1 st2 and r :: "int \<times> int"
  assume w: "(r, st1) = sys_waitpid (- 1) st" and pos: "0 < fst r"
    and h: "handle_reaped wm (fst r) (snd r) st1 = Returns st2"
  from w have r: "r = fst (sys_waitpid (- 1) st)" and st1: "st1 = snd (sys_waitpid (- 1) st)"
    by (metis fst_conv, metis snd_conv)
  from r pos have ne: "wait_rets st \<noteq> []"
    by (auto simp: sys_waitpid_result)
  have "wait_rets st2 = tl (wait_rets st)"
    using handle_reaped_wait_rets [OF h] st1 by simp
  with ne show "((wm, st2), (wm, st)) \<in> measure (\<lambda>(wm, st). length (wait_rets st))"
    by (cases "wait_rets st") simp_all
qed simp

declare reap_children.simps [simp del]

text \<open>One pass of the body of \<open>while (!terminate)\<close>, up to the \<open>sleep(1)\<close>.\<close>

definition reap_pass :: "wait_macros \<Rightarrow> sup_state \<Rightarrow> outcome" where
  "reap_pass wm st =
     (if need_reap st then reap_children wm (st\<lparr>need_reap := False\<rparr>) else Returns st)"

text \<open>
  The supervise loop. Signals reach the process while it sleeps: the schedule gives, for
  each \<open>sleep(1)\<close> of the loop, the signals delivered during it. (The flags are read at
  the top of the loop only, so a signal delivered elsewhere in the body has the effect of
  one delivered during the sleep that follows or the one before.) When the schedule has
  run out and \<open>terminate\<close> is not set, no signal ever sets it and the loop does not
  return: the value is \<open>None\<close>.
\<close>

fun main_loop :: "wait_macros \<Rightarrow> signal list list \<Rightarrow> sup_state \<Rightarrow> outcome option" where
  "main_loop wm [] st =
     (if terminate st then Some (Returns st)
      else (case reap_pass wm st of
              Returns st1 \<Rightarrow> None
            | Exited c st1 \<Rightarrow> Some (Exited c st1)
            | Replaced path args st1 \<Rightarrow> Some (Replaced path args st1)))"
| "main_loop wm (sigs # sched) st =
     (if terminate st then Some (Returns st)
      else (case reap_pass wm st of
              Returns st1 \<Rightarrow> main_loop wm sched (fold deliver sigs (emit (EvSleep 1) st1))
            | Exited c st1 \<Rightarrow> Some (Exited c st1)
            | Replaced path args st1 \<Rightarrow> Some (Replaced path args st1)))"

text \<open>\<^verbatim>\<open>for (int i=0;i<nservices;i++) stop_service(&services[i]);\<close> from \<open>i\<close> on.\<close>

function stop_all :: "nat \<Rightarrow> sup_state \<Rightarrow> sup_state" where
  "stop_all i st =
     (if i < length (services st) then stop_all (Suc i) (stop_service (Some i) st) else st)"
  by pat_completeness auto
termination
  by (relation "measure (\<lambda>(i, st). length (services st) - i)")
    (auto simp: stop_service_length)

declare stop_all.simps [simp del]

text \<open>The end of \<open>main\<close>, after the loop; \<open>return 0\<close> ends the process with status 0.\<close>

definition shutdown :: "sup_state \<Rightarrow> outcome" where
  "shutdown st =
     (let st1 = emit (EvPrintf ShuttingDown) st;
          st2 = stop_all 0 st1;
          st3 = emit EvSync st2
      in case sys_access ''/sbin/poweroff'' st3 of (r, st4) \<Rightarrow>
         if r = 0
         then (case sys_execl ''/sbin/poweroff'' [''poweroff''] st4 of (ok, st5) \<Rightarrow>
                 if ok then Replaced ''/sbin/poweroff'' [''poweroff''] st5 else Exited 0 st5)
         else Exited 0 st4)"

text \<open>The loop and what follows it.\<close>

definition supervise :: "wait_macros \<Rightarrow> signal list list \<Rightarrow> sup_state \<Rightarrow> outcome option" where
  "supervise wm sched st =
     (case main_loop wm sched st of
        None \<Rightarrow> None
      | Some (Returns st1) \<Rightarrow> Some (shutdown st1)
      | Some (Exited c st1) \<Rightarrow> Some (Exited c st1)
      | Some (Replaced path args st1) \<Rightarrow> Some (Replaced path args st1))"

section \<open>Notions used in the properties\<close>

subsection \<open>Concrete inputs\<close>

text \<open>A registry entry and a process state to evaluate the model on.\<close>

definition ex_entry :: "string \<Rightarrow> restart_t \<Rightarrow> int \<Rightarrow> bool \<Rightarrow> service" where
  "ex_entry n r p b =
     \<lparr> name = n, execcmd = Some ''/bin/true'', restart = r, pid = p, running = b,
       logfile = ''/var/log/'' @ n @ ''.log'' \<rparr>"

definition ex_state :: "service list \<Rightarrow> sup_state" where
  "ex_state svs =
     \<lparr> services = svs, need_reap = False, terminate = False, trace = [],
       fork_rets = [], wait_rets = [], open_rets = [], execl_ok = [], access_rets = [] \<rparr>"

subsection \<open>Notions for: The restart policy\<close>

text \<open>The number of \<open>fork\<close> calls in a trace: each is one launch of a process.\<close>

definition forks :: "event list \<Rightarrow> nat" where
  "forks es = length (filter (\<lambda>e. e = EvFork) es)"

text \<open>An entry that is marked running has a command.\<close>

definition has_cmd :: "service \<Rightarrow> bool" where
  "has_cmd s = (if running s then execcmd s \<noteq> None else True)"

text \<open>Every entry of the registry is such.\<close>

definition cmd_inv :: "sup_state \<Rightarrow> bool" where
  "cmd_inv st = list_all has_cmd (services st)"


subsection \<open>Notions for: A launch whose \<open>execl\<close> fails\<close>

text \<open>The next \<open>execl\<close> fails: the kernel's answer is failure.\<close>

definition execl_fails :: "sup_state \<Rightarrow> bool" where
  "execl_fails st = (case execl_ok st of [] \<Rightarrow> True | ok # rest \<Rightarrow> \<not> ok)"

text \<open>
  The calls the child's side of \<open>start_service\<close> makes. Neither \<open>fork\<close>, \<open>waitpid\<close>,
  \<open>kill\<close>, \<open>sleep\<close>, \<open>sync\<close> nor a log line of the supervisor is among them.
\<close>

fun child_event :: "event \<Rightarrow> bool" where
  "child_event (EvOpen path) = True"
| "child_event (EvDup2 a b) = True"
| "child_event (EvClose a) = True"
| "child_event EvSetsid = True"
| "child_event (EvExecl path args) = True"
| "child_event (EvPerror msg) = True"
| "child_event e = False"

subsection \<open>Notions for: The escalation in \<open>stop_service\<close>\<close>

fun is_kill :: "event \<Rightarrow> bool" where
  "is_kill (EvKill p sig) = True"
| "is_kill e = False"

text \<open>The events a call adds to the trace.\<close>

definition new_events :: "sup_state \<Rightarrow> sup_state \<Rightarrow> event list" where
  "new_events st st' = drop (length (trace st)) (trace st')"

text \<open>The targets of the \<open>kill\<close> calls of a trace that send a given signal, in order.\<close>

fun kills :: "signal \<Rightarrow> event list \<Rightarrow> int list" where
  "kills sg [] = []"
| "kills sg (EvKill q s # es) = (if s = sg then q # kills sg es else kills sg es)"
| "kills sg (e # es) = kills sg es"

subsection \<open>Notions for: One drain pass\<close>

text \<open>
  What the specification asks of a drain pass, for the finished children \<open>zs\<close> (pid and
  status of each, in the order the kernel reports them): every pair is handed to
  \<open>handle_reaped\<close> once, after the query that reported it, unless the process has ended
  before (on a child's side of a \<open>fork\<close>).
\<close>

fun dispatch_all :: "wait_macros \<Rightarrow> (int \<times> int) list \<Rightarrow> sup_state \<Rightarrow> outcome" where
  "dispatch_all wm [] st = Returns st"
| "dispatch_all wm (z # zs) st =
     (case handle_reaped wm (fst z) (snd z) (snd (sys_waitpid (- 1) st)) of
        Returns st1 \<Rightarrow> dispatch_all wm zs st1
      | Exited c st1 \<Rightarrow> Exited c st1
      | Replaced path args st1 \<Rightarrow> Replaced path args st1)"

text \<open>The query that reports no further child and ends the pass.\<close>

definition last_query :: "sup_state \<Rightarrow> outcome" where
  "last_query st = Returns (snd (sys_waitpid (- 1) st))"

subsection \<open>Notions for: The shutdown sequence\<close>

text \<open>The calls \<open>stop_service\<close> makes before its log line.\<close>

fun signal_event :: "event \<Rightarrow> bool" where
  "signal_event (EvKill p sig) = True"
| "signal_event (EvWaitpid p) = True"
| "signal_event (EvUsleep n) = True"
| "signal_event e = False"

text \<open>The \<open>stopped\<close> log lines of a trace, in order: service name and pid.\<close>

fun stop_lines :: "event list \<Rightarrow> (string \<times> int) list" where
  "stop_lines [] = []"
| "stop_lines (EvPrintf (Stopped n p) # es) = (n, p) # stop_lines es"
| "stop_lines (e # es) = stop_lines es"

text \<open>The calls \<open>stop_service\<close> makes.\<close>

fun stop_event :: "event \<Rightarrow> bool" where
  "stop_event (EvPrintf (Stopped n p)) = True"
| "stop_event e = signal_event e"

text \<open>The \<open>Stopped\<close> lines for the running entries among a list of entries, in order.\<close>

definition lines_of :: "service list \<Rightarrow> (string \<times> int) list" where
  "lines_of svs = map (\<lambda>s. (name s, pid s)) (filter running svs)"

text \<open>The \<open>access\<close> check finds the power-off helper present and executable.\<close>

definition poweroff_present :: "sup_state \<Rightarrow> bool" where
  "poweroff_present st = (case access_rets st of [] \<Rightarrow> False | r # rs \<Rightarrow> r = 0)"

text \<open>
  Three entries, the second one idle, and a termination request pending. The first
  service needs a second poll; the helper is present and its \<open>execl\<close> succeeds.
\<close>

definition ex_shutdown :: sup_state where
  "ex_shutdown =
     (ex_state [ex_entry ''web'' R_ALWAYS 100 True, ex_entry ''idle'' R_NO 7 False,
                ex_entry ''db'' R_NO 200 True])
       \<lparr>terminate := True, wait_rets := [(0, 0), (100, 0), (- 1, 0), (200, 0), (- 1, 0)],
         access_rets := [0], execl_ok := [True]\<rparr>"

subsection \<open>Notions for: What a line of a service file assigns\<close>

text \<open>The three keys of a service file.\<close>

datatype key_t = K_NAME | K_EXEC | K_RESTART

text \<open>
  The key a line assigns and the value it stores, as the loop body decides it: the text
  before the first \<open>=\<close>, trimmed, is matched without regard to case, and the value is the
  trimmed text after it, cut to the size of its buffer. \<open>None\<close> for a line that assigns
  nothing.
\<close>

definition line_field :: "string \<Rightarrow> (key_t \<times> string) option" where
  "line_field line =
     (case split_eq (c_str line) of
        None \<Rightarrow> None
      | Some (k, v) \<Rightarrow>
          (let key = trim k; val = trim v in
           if strcasecmp_eq key ''name'' \<or> strcasecmp_eq key ''Name''
           then Some (K_NAME, strncpy val 127)
           else if strcasecmp_eq key ''execstart'' \<or> strcasecmp_eq key ''ExecStart''
           then Some (K_EXEC, strncpy val (MAX_LINE - 1))
           else if strcasecmp_eq key ''restart'' \<or> strcasecmp_eq key ''Restart''
           then Some (K_RESTART, strncpy val (MAX_LINE - 1))
           else None))"

text \<open>The buffer of a key.\<close>

fun buf_of :: "key_t \<Rightarrow> parse_bufs \<Rightarrow> string" where
  "buf_of K_NAME b = buf_name b"
| "buf_of K_EXEC b = buf_exec b"
| "buf_of K_RESTART b = buf_restart b"

fun set_buf :: "key_t \<Rightarrow> string \<Rightarrow> parse_bufs \<Rightarrow> parse_bufs" where
  "set_buf K_NAME v b = b\<lparr>buf_name := v\<rparr>"
| "set_buf K_EXEC v b = b\<lparr>buf_exec := v\<rparr>"
| "set_buf K_RESTART v b = b\<lparr>buf_restart := v\<rparr>"

text \<open>A file that gives \<open>Name\<close> twice, the second time in another spelling.\<close>

definition ex_twice :: string where
  "ex_twice = ''Name=old'' @ [CHR 0x0A] @ ''name = new '' @ [CHR 0x0A] @
              ''ExecStart=/bin/a'' @ [CHR 0x0A]"

subsection \<open>Notions for: What a service file yields\<close>

text \<open>The three buffers after the loop over the lines of a file.\<close>

definition file_bufs :: "string \<Rightarrow> parse_bufs" where
  "file_bufs content = parse_lines (file_lines content) init_bufs"

text \<open>
  The service a file yields when the registry has room: none for a file that cannot be
  opened or that leaves the name or the command empty.
\<close>

definition file_service :: "string option \<Rightarrow> service option" where
  "file_service f =
     (case f of
        None \<Rightarrow> None
      | Some content \<Rightarrow>
          if buf_name (file_bufs content) \<noteq> [] \<and> buf_exec (file_bufs content) \<noteq> []
          then Some (new_service (file_bufs content))
          else None)"

text \<open>A valid file, and a registry that is full.\<close>

definition ex_file :: string where
  "ex_file = ''Name=web'' @ [CHR 0x0A] @ ''ExecStart=/bin/true'' @ [CHR 0x0A]"

definition ex_full :: sup_state where
  "ex_full = ex_state (replicate 128 (ex_entry ''old'' R_NO 0 False))"

subsection \<open>Notions for: Loading more files than the registry holds\<close>

text \<open>The directory entries \<open>load_services\<close> reads: no directories, no names starting with a dot.\<close>

definition listed :: "dirent \<Rightarrow> bool" where
  "listed e = (d_type e \<noteq> DT_DIR \<and> \<not> (d_name e \<noteq> [] \<and> hd (d_name e) = CHR ''.''))"

text \<open>The path \<open>load_services\<close> builds for an entry.\<close>

definition path_of :: "dirent \<Rightarrow> string" where
  "path_of e = take 511 (SERVICES_DIR @ ''/'' @ d_name e)"

text \<open>The services of the valid files of a directory, in the order \<open>readdir\<close> lists them.\<close>

fun valid_services :: "(string \<Rightarrow> string option) \<Rightarrow> dirent list \<Rightarrow> service list" where
  "valid_services fs [] = []"
| "valid_services fs (e # es) =
     (if listed e
      then (case file_service (fs (path_of e)) of
              None \<Rightarrow> valid_services fs es
            | Some s \<Rightarrow> s # valid_services fs es)
      else valid_services fs es)"

text \<open>A directory of 130 service files, each valid.\<close>

definition ex_dir :: "dirent list" where
  "ex_dir = map (\<lambda>n. \<lparr> d_type = DT_REG, d_name = ''svc'' @ replicate n CHR ''x'' \<rparr>) [0..<130]"

definition ex_fsys :: filesys where
  "ex_fsys = \<lparr> dir_entries = Some ex_dir, file_at = (\<lambda>p. Some ex_file) \<rparr>"

section \<open>Properties\<close>

subsection \<open>The scan of \<open>handle_reaped\<close>, step by step\<close>

lemma handle_scan_end:
  "\<not> i < length (services st) \<Longrightarrow> handle_scan wm p status i st = Returns st"
  by (subst handle_scan.simps) simp

lemma handle_scan_miss:
  "i < length (services st) \<Longrightarrow> \<not> (running (services st ! i) \<and> pid (services st ! i) = p) \<Longrightarrow>
   handle_scan wm p status i st = handle_scan wm p status (Suc i) st"
  by (subst handle_scan.simps) (auto simp: Let_def)

lemma handle_scan_hit:
  "i < length (services st) \<Longrightarrow> running (services st ! i) \<Longrightarrow> pid (services st ! i) = p \<Longrightarrow>
   handle_scan wm p status i st =
     (let s = services st ! i;
          st1 = emit (EvPrintf (ServiceExited (name s) p status))
                  (set_slot i (s\<lparr>running := False\<rparr>) st);
          exitcode = (if WIFEXITED wm status then WEXITSTATUS wm status else - 1)
      in if restart s = R_ALWAYS \<or> (restart s = R_ON_FAILURE \<and> exitcode \<noteq> 0)
         then start_service (Some i) (emit (EvSleep 1) st1)
         else Returns st1)"
  by (subst handle_scan.simps) (simp add: Let_def)

lemma handle_scan_no_match:
  "(\<And>j. i \<le> j \<Longrightarrow> j < length (services st) \<Longrightarrow>
        \<not> (running (services st ! j) \<and> pid (services st ! j) = p)) \<Longrightarrow>
   handle_scan wm p status i st = Returns st"
proof (induction wm p status i st rule: handle_scan.induct)
  case (1 wm p status i st)
  show ?case
  proof (cases "i < length (services st)")
    case False
    then show ?thesis by (rule handle_scan_end)
  next
    case True
    then have miss: "\<not> (running (services st ! i) \<and> pid (services st ! i) = p)"
      using "1.prems" [of i] by simp
    have "handle_scan wm p status (Suc i) st = Returns st"
      using True miss "1.prems" by (intro "1.IH") auto
    then show ?thesis
      using handle_scan_miss [OF True miss, of wm status] by simp
  qed
qed

subsection \<open>An exit that matches no running entry\<close>

text \<open>
  Claim C9. When the reaped pid \<open>p\<close> matches no entry that is marked running,
  \<open>handle_reaped\<close> returns the state it was given: every field of every registry
  entry, the size of the registry, the flags and the trace are as before (nothing is
  printed, nothing is started).
\<close>

theorem handle_reaped_orphan:
  assumes "\<forall>s \<in> set (services st). \<not> (running s \<and> pid s = p)"
  shows "handle_reaped wm p status st = Returns st"
  unfolding handle_reaped_def
  using assms by (intro handle_scan_no_match) (metis nth_mem)

text \<open>Pid 200 belonged to an entry that is already stopped; pid 100 is still running.\<close>

theorem handle_reaped_orphan_witness:
  "handle_reaped linux_wait 200 0
     (ex_state [ex_entry ''web'' R_ALWAYS 100 True, ex_entry ''db'' R_ALWAYS 200 False]) =
   Returns (ex_state [ex_entry ''web'' R_ALWAYS 100 True, ex_entry ''db'' R_ALWAYS 200 False])"
  by (rule handle_reaped_orphan) (simp add: ex_state_def ex_entry_def)

subsection \<open>The restart policy\<close>

lemma forks_append [simp]: "forks (xs @ ys) = forks xs + forks ys"
  by (simp add: forks_def)

lemma forks_Nil [simp]: "forks [] = 0"
  by (simp add: forks_def)

lemma forks_Cons [simp]: "forks (e # es) = (if e = EvFork then Suc (forks es) else forks es)"
  by (simp add: forks_def)


text \<open>
  An entry that is marked running has a command: \<open>running\<close> is set in \<open>start_service\<close>
  only, after the test of \<open>execcmd\<close>. This holds of the empty registry and is kept by
  the loader and by every operation of the supervisor.
\<close>

lemma list_all_update: "list_all P xs \<Longrightarrow> P x \<Longrightarrow> list_all P (xs[i := x])"
  by (metis insert_iff list_all_iff set_update_subset_insert subsetD)

lemma cmd_inv_empty: "cmd_inv (ex_state [])"
  by (simp add: cmd_inv_def ex_state_def)

lemma parse_service_file_cmd_inv: "cmd_inv st \<Longrightarrow> cmd_inv (parse_service_file f st)"
  by (auto simp: cmd_inv_def parse_service_file_def Let_def has_cmd_def new_service_def
      split: option.splits)

lemma scan_dir_cmd_inv: "cmd_inv st \<Longrightarrow> cmd_inv (scan_dir fs es st)"
  by (induction es arbitrary: st) (simp_all add: parse_service_file_cmd_inv)

lemma load_services_cmd_inv: "cmd_inv st \<Longrightarrow> cmd_inv (load_services fsys st)"
  by (simp add: load_services_def scan_dir_cmd_inv split: option.splits)

lemma start_service_cmd_inv: "cmd_inv st \<Longrightarrow> cmd_inv (final_state (start_service sp st))"
  by (auto simp: cmd_inv_def start_service_def Let_def case_prod_beta start_child_services
      has_cmd_def intro!: list_all_update split: option.splits)

lemma stop_service_cmd_inv: "cmd_inv st \<Longrightarrow> cmd_inv (stop_service sp st)"
  by (auto simp: cmd_inv_def stop_service_def Let_def case_prod_beta stop_poll_services
      has_cmd_def intro!: list_all_update split: option.splits)

lemma handle_scan_cmd_inv: "cmd_inv st \<Longrightarrow> cmd_inv (final_state (handle_scan wm p status i st))"
proof (induction wm p status i st rule: handle_scan.induct)
  case (1 wm p status i st)
  show ?case
  proof (cases "i < length (services st)")
    case False
    then show ?thesis using "1.prems" by (simp add: handle_scan_end)
  next
    case True
    show ?thesis
    proof (cases "running (services st ! i) \<and> pid (services st ! i) = p")
      case False
      then show ?thesis
        using True "1.IH" "1.prems" by (simp add: handle_scan_miss)
    next
      case hit: True
      define st1 where "st1 = emit (EvPrintf (ServiceExited (name (services st ! i)) p status))
                                (set_slot i ((services st ! i)\<lparr>running := False\<rparr>) st)"
      have "cmd_inv st1"
        using "1.prems" by (auto simp: st1_def cmd_inv_def has_cmd_def intro!: list_all_update)
      then have "cmd_inv (emit (EvSleep 1) st1)"
        by (simp add: cmd_inv_def)
      then have "cmd_inv (final_state (start_service (Some i) (emit (EvSleep 1) st1)))"
        by (rule start_service_cmd_inv)
      then show ?thesis
        using True hit \<open>cmd_inv st1\<close> by (simp add: handle_scan_hit Let_def st1_def)
    qed
  qed
qed

lemma handle_reaped_cmd_inv: "cmd_inv st \<Longrightarrow> cmd_inv (final_state (handle_reaped wm p status st))"
  by (simp add: handle_reaped_def handle_scan_cmd_inv)

lemma running_has_command:
  "cmd_inv st \<Longrightarrow> i < length (services st) \<Longrightarrow> running (services st ! i) \<Longrightarrow>
   execcmd (services st ! i) \<noteq> None"
  by (auto simp: cmd_inv_def list_all_length has_cmd_def)






subsection \<open>A launch whose \<open>execl\<close> fails\<close>

lemma start_child_exec_failure:
  assumes "execl_fails st"
  shows "start_child s cmd st = Exited 127 (final_state (start_child s cmd st))"
    and "services (final_state (start_child s cmd st)) = services st"
    and "need_reap (final_state (start_child s cmd st)) = need_reap st"
    and "terminate (final_state (start_child s cmd st)) = terminate st"
    and "take (length (trace st)) (trace (final_state (start_child s cmd st))) = trace st"
    and "list_all child_event (drop (length (trace st)) (trace (final_state (start_child s cmd st))))"
    and "last (trace (final_state (start_child s cmd st))) = EvPerror ''execl''"
    and "last (butlast (trace (final_state (start_child s cmd st)))) =
           EvExecl ''/bin/sh'' [''sh'', ''-c'', cmd]"
  using assms
  by (simp_all add: start_child_def Let_def case_prod_beta sys_execl_result execl_fails_def
      butlast_append split: list.splits)

text \<open>
  An outcome \<open>Exited\<close> is final. \<open>handle_reaped\<close> calls \<open>start_service\<close> last and returns
  its outcome; the reap loop, the supervise loop and what follows it hand an \<open>Exited\<close> on
  as it is.
\<close>

lemma reap_children_process_ends:
  assumes "0 < fst (fst (sys_waitpid (- 1) st))"
    and "handle_reaped wm (fst (fst (sys_waitpid (- 1) st))) (snd (fst (sys_waitpid (- 1) st)))
           (snd (sys_waitpid (- 1) st)) = Exited c st'"
  shows "reap_children wm st = Exited c st'"
  using assms by (subst reap_children.simps) (simp add: case_prod_beta)

lemma main_loop_process_ends:
  assumes "\<not> terminate st" and "reap_pass wm st = Exited c st'"
  shows "main_loop wm sched st = Some (Exited c st')"
  using assms by (cases sched) simp_all

lemma supervise_process_ends:
  assumes "\<not> terminate st" and "reap_pass wm st = Exited c st'"
  shows "supervise wm sched st = Some (Exited c st')"
  using main_loop_process_ends [OF assms] by (simp add: supervise_def)

text \<open>
  Claim C7. On the child's side of the \<open>fork\<close> in \<open>start_service\<close> (\<open>fork\<close> returned 0),
  when \<open>execl\<close> fails the process ends with exit status 127. The registry and the two
  flags are as they were at the \<open>fork\<close>; after the \<open>fork\<close> the process has made only
  the child's calls (redirections, \<open>setsid\<close>, \<open>execl\<close>, \<open>perror\<close>), the last two being
  the \<open>execl\<close> and the \<open>perror\<close> that reports its failure. Nothing of the supervisor
  runs afterwards: the outcome is \<open>Exited\<close>, not \<open>Returns\<close>.
\<close>

theorem start_service_exec_failure:
  assumes "i < length (services st)"
    and "execcmd (services st ! i) = Some cmd"
    and "fork_rets st = 0 # fr"
    and "execl_fails st"
  shows "start_service (Some i) st = Exited 127 (final_state (start_service (Some i) st))
       \<and> services (final_state (start_service (Some i) st)) = services st
       \<and> need_reap (final_state (start_service (Some i) st)) = need_reap st
       \<and> terminate (final_state (start_service (Some i) st)) = terminate st
       \<and> take (Suc (length (trace st))) (trace (final_state (start_service (Some i) st))) =
           trace st @ [EvFork]
       \<and> list_all child_event
           (drop (Suc (length (trace st))) (trace (final_state (start_service (Some i) st))))
       \<and> last (trace (final_state (start_service (Some i) st))) = EvPerror ''execl''
       \<and> last (butlast (trace (final_state (start_service (Some i) st)))) =
           EvExecl ''/bin/sh'' [''sh'', ''-c'', cmd]"
proof -
  define st1 where "st1 = snd (sys_fork st)"
  have child: "start_service (Some i) st = start_child (services st ! i) cmd st1"
    using assms(1-3) by (simp add: start_service_def Let_def case_prod_beta sys_fork_result st1_def)
  have fails: "execl_fails st1"
    using assms(4) by (simp add: execl_fails_def st1_def)
  have tr: "trace st1 = trace st @ [EvFork]" and sv: "services st1 = services st"
    and nr: "need_reap st1 = need_reap st" and tm: "terminate st1 = terminate st"
    by (simp_all add: st1_def)
  show ?thesis
    unfolding child
    using start_child_exec_failure [OF fails, of "services st ! i" cmd]
    by (simp add: tr sv nr tm)
qed

text \<open>The child of a launch of \<open>web\<close> whose \<open>execl\<close> fails (both \<open>open\<close> calls fail too).\<close>

theorem start_service_exec_failure_witness:
  "start_service (Some 0) ((ex_state [ex_entry ''web'' R_ALWAYS 0 False])\<lparr>fork_rets := [0], execl_ok := [False]\<rparr>) =
   Exited 127 ((ex_state [ex_entry ''web'' R_ALWAYS 0 False])
     \<lparr>trace := [EvFork, EvOpen ''/dev/null'', EvOpen ''/var/log/web.log'', EvSetsid,
                 EvExecl ''/bin/sh'' [''sh'', ''-c'', ''/bin/true''], EvPerror ''execl'']\<rparr>)"
proof -
  let ?st = "(ex_state [ex_entry ''web'' R_ALWAYS 0 False])\<lparr>fork_rets := [0], execl_ok := [False]\<rparr>"
  have "start_service (Some 0) ?st = Exited 127 (final_state (start_service (Some 0) ?st))"
    using start_service_exec_failure [of 0 ?st "''/bin/true''" "[]"]
    by (simp add: ex_state_def ex_entry_def execl_fails_def)
  moreover have "final_state (start_service (Some 0) ?st) =
    (ex_state [ex_entry ''web'' R_ALWAYS 0 False])
     \<lparr>trace := [EvFork, EvOpen ''/dev/null'', EvOpen ''/var/log/web.log'', EvSetsid,
                 EvExecl ''/bin/sh'' [''sh'', ''-c'', ''/bin/true''], EvPerror ''execl'']\<rparr>"
    by (simp add: start_service_def start_child_def sys_fork_def sys_open_def sys_execl_def
        emit_def ex_state_def ex_entry_def Let_def)
  ultimately show ?thesis by simp
qed

subsection \<open>The escalation in \<open>stop_service\<close>\<close>

lemma stop_poll_trace:
  "\<exists>es. trace (stop_poll p i st) = trace st @ es \<and> \<not> list_ex is_kill es"
proof (induction p i st rule: stop_poll.induct)
  case (1 p i st)
  show ?case
  proof (cases "i < 50 \<and> fst (fst (sys_waitpid p st)) \<noteq> p")
    case True
    then obtain es where
      "trace (stop_poll p (Suc i) (emit (EvUsleep 100000) (snd (sys_waitpid p st)))) =
         trace (emit (EvUsleep 100000) (snd (sys_waitpid p st))) @ es" and "\<not> list_ex is_kill es"
      using "1.IH" [of "fst (sys_waitpid p st)" "snd (sys_waitpid p st)"] by auto
    then have "trace (stop_poll p i st) = trace st @ ([EvWaitpid p, EvUsleep 100000] @ es)
               \<and> \<not> list_ex is_kill ([EvWaitpid p, EvUsleep 100000] @ es)"
      using True by (subst stop_poll.simps) (simp add: case_prod_beta)
    then show ?thesis by blast
  next
    case False
    then have "trace (stop_poll p i st) = trace st @ (if i < 50 then [EvWaitpid p] else [])
               \<and> \<not> list_ex is_kill (if i < 50 then [EvWaitpid p] else [])"
      by (subst stop_poll.simps) (auto simp: case_prod_beta)
    then show ?thesis by blast
  qed
qed

text \<open>
  What the code does: the kill is sent exactly when the \<open>waitpid\<close> after the polling
  loop does not return the pid, whatever the polls inside the loop returned.
\<close>

lemma stop_service_kill_iff:
  assumes "i < length (services st)" and "running (services st ! i)"
  shows "EvKill (- pid (services st ! i)) SIGKILL \<in> set (new_events st (stop_service (Some i) st)) \<longleftrightarrow>
         fst (fst (sys_waitpid (pid (services st ! i))
                (stop_poll (pid (services st ! i)) 0
                   (emit (EvKill (- pid (services st ! i)) SIGTERM) st)))) \<noteq> pid (services st ! i)"
proof -
  define p where "p = pid (services st ! i)"
  define st1 where "st1 = emit (EvKill (- p) SIGTERM) st"
  obtain es where es: "trace (stop_poll p 0 st1) = trace st1 @ es" "\<not> list_ex is_kill es"
    using stop_poll_trace by blast
  then have nk: "EvKill (- p) SIGKILL \<notin> set es"
    by (auto simp: list_ex_iff)
  show ?thesis
    using assms es(1) nk
    by (simp add: stop_service_def Let_def case_prod_beta new_events_def p_def [symmetric]
        st1_def [symmetric]) (simp add: st1_def)
qed

text \<open>
  A kernel reports the end of a child once: after the \<open>waitpid\<close> that returned the pid
  the child is gone, and the next \<open>waitpid\<close> for it returns \<open>-1\<close> (\<open>ECHILD\<close>). So
  whenever one of the 50 polls observes the child's end, the \<open>waitpid\<close> after the loop
  does not, and the kill is sent.
\<close>

lemma stop_poll_reaps:
  assumes "wait_rets st = ws @ (p, s) # rest" and "i + length ws < 50"
    and "\<forall>w \<in> set ws. fst w \<noteq> p"
  shows "wait_rets (stop_poll p i st) = rest"
  using assms
proof (induction ws arbitrary: i st)
  case Nil
  then show ?case
    by (subst stop_poll.simps) (simp add: case_prod_beta sys_waitpid_result)
next
  case (Cons w ws)
  have "wait_rets (stop_poll p (Suc i) (emit (EvUsleep 100000) (snd (sys_waitpid p st)))) = rest"
    using Cons.prems by (intro Cons.IH) auto
  then show ?case
    using Cons.prems by (subst stop_poll.simps) (simp add: case_prod_beta sys_waitpid_result)
qed

lemma stop_service_kills_reaped_child:
  assumes "i < length (services st)" and "running (services st ! i)"
    and "wait_rets st = ws @ (pid (services st ! i), s) # rest" and "length ws < 50"
    and "\<forall>w \<in> set ws. fst w \<noteq> pid (services st ! i)"
    and "case rest of [] \<Rightarrow> pid (services st ! i) \<noteq> - 1 | r # rs \<Rightarrow> fst r \<noteq> pid (services st ! i)"
  shows "EvKill (- pid (services st ! i)) SIGKILL \<in> set (new_events st (stop_service (Some i) st))"
proof -
  have "wait_rets (stop_poll (pid (services st ! i)) 0
          (emit (EvKill (- pid (services st ! i)) SIGTERM) st)) = rest"
    using assms(3-5) by (intro stop_poll_reaps [where ws = ws and s = s]) auto
  then show ?thesis
    using assms(6) by (auto simp: stop_service_kill_iff [OF assms(1,2)] sys_waitpid_result split: list.splits)
qed

text \<open>
  Claim C1 says that no kill signal is sent when the child's end is observed during the
  polling window. The code sends it: here the service with pid 100 ends at once on
  \<open>SIGTERM\<close>, the first poll reaps it (\<open>waitpid\<close> returns 100), the loop is left by
  \<open>break\<close>, the \<open>waitpid\<close> after the loop returns \<open>-1\<close> since the child is already
  reaped, and \<open>kill(-100, SIGKILL)\<close> follows.
\<close>

theorem stop_service_kills_after_reap:
  "trace (stop_service (Some 0)
     ((ex_state [ex_entry ''web'' R_NO 100 True])\<lparr>wait_rets := [(100, 0), (- 1, 0)]\<rparr>)) =
   [EvKill (- 100) SIGTERM, EvWaitpid 100, EvWaitpid 100, EvKill (- 100) SIGKILL,
    EvPrintf (Stopped ''web'' 100)]"
  by (simp add: stop_service_def stop_poll.simps sys_waitpid_def emit_def set_slot_def
      ex_state_def ex_entry_def Let_def)

subsection \<open>One drain pass\<close>

lemma reap_children_dispatches:
  assumes "wait_rets st = zs @ rest"
    and "\<forall>z \<in> set zs. 0 < fst z"
    and "rest = [] \<or> fst (hd rest) \<le> 0"
  shows "reap_children wm st = and_then (dispatch_all wm zs st) last_query"
  using assms
proof (induction zs arbitrary: st)
  case Nil
  then have "\<not> 0 < fst (fst (sys_waitpid (- 1) st))"
    by (cases rest) (auto simp: sys_waitpid_result)
  then show ?case
    by (subst reap_children.simps) (simp add: case_prod_beta last_query_def)
next
  case (Cons z zs)
  have res: "fst (sys_waitpid (- 1) st) = z"
    using Cons.prems(1) by (simp add: sys_waitpid_result)
  have pos: "0 < fst z"
    using Cons.prems(2) by simp
  show ?case
  proof (cases "handle_reaped wm (fst z) (snd z) (snd (sys_waitpid (- 1) st))")
    case (Returns st1)
    then have "wait_rets st1 = zs @ rest"
      using handle_reaped_wait_rets [OF Returns] Cons.prems(1) by simp
    then have "reap_children wm st1 = and_then (dispatch_all wm zs st1) last_query"
      using Cons.prems by (intro Cons.IH) auto
    then show ?thesis
      using Returns res pos by (subst reap_children.simps) (simp add: case_prod_beta)
  next
    case (Exited c st1)
    then show ?thesis
      using res pos by (subst reap_children.simps) (simp add: case_prod_beta)
  next
    case (Replaced path args st1)
    then show ?thesis
      using res pos by (subst reap_children.simps) (simp add: case_prod_beta)
  qed
qed

text \<open>Any number of \<open>SIGCHLD\<close> deliveries leaves the flag set, as one does.\<close>

lemma sigchld_coalesce: "(sigchld_handler ^^ Suc n) st = st\<lparr>need_reap := True\<rparr>"
  by (induction n) (simp_all add: sigchld_handler_def)

text \<open>
  Claim C4. Let the children \<open>zs\<close> have finished when the loop observes the reap flag,
  set by \<open>n + 1\<close> coalesced notifications: the kernel reports them one by one (each pid
  positive) and then reports that none is left (a result that is not positive). One pass of
  the loop body clears the flag and then hands every pair of \<open>zs\<close>, in order and once
  each, to \<open>handle_reaped\<close>; the pass ends with the query that finds no further child.
\<close>

theorem drain_pass_dispatches_all:
  assumes "wait_rets st = zs @ rest"
    and "\<forall>z \<in> set zs. 0 < fst z"
    and "rest = [] \<or> fst (hd rest) \<le> 0"
  shows "reap_pass wm ((sigchld_handler ^^ Suc n) st) =
           and_then (dispatch_all wm zs (st\<lparr>need_reap := False\<rparr>)) last_query"
proof -
  have "reap_pass wm ((sigchld_handler ^^ Suc n) st) = reap_children wm (st\<lparr>need_reap := False\<rparr>)"
    by (simp only: sigchld_coalesce) (simp add: reap_pass_def)
  moreover have "wait_rets (st\<lparr>need_reap := False\<rparr>) = zs @ rest"
    using assms(1) by simp
  ultimately show ?thesis
    using reap_children_dispatches [OF _ assms(2,3)] by simp
qed

text \<open>
  Two children have ended and two notifications have arrived before the flag is looked at:
  one pass handles both exits.
\<close>

theorem drain_pass_dispatches_all_witness:
  "reap_pass linux_wait ((sigchld_handler ^^ Suc 1)
     ((ex_state [ex_entry ''web'' R_NO 100 True, ex_entry ''db'' R_NO 200 True])
        \<lparr>wait_rets := [(200, 0), (100, 256), (0, 0)]\<rparr>)) =
   Returns ((ex_state [ex_entry ''web'' R_NO 100 False, ex_entry ''db'' R_NO 200 False])
     \<lparr>trace := [EvWaitpid (- 1), EvPrintf (ServiceExited ''db'' 200 0),
                 EvWaitpid (- 1), EvPrintf (ServiceExited ''web'' 100 256),
                 EvWaitpid (- 1)]\<rparr>)"
  using drain_pass_dispatches_all
          [of "(ex_state [ex_entry ''web'' R_NO 100 True, ex_entry ''db'' R_NO 200 True])
                 \<lparr>wait_rets := [(200, 0), (100, 256), (0, 0)]\<rparr>"
              "[(200, 0), (100, 256)]" "[(0, 0)]" linux_wait 1]
  by (simp add: handle_reaped_def handle_scan.simps last_query_def sys_waitpid_def emit_def
      set_slot_def ex_state_def ex_entry_def linux_wait_def Let_def)

subsection \<open>The shutdown sequence\<close>

lemma stop_lines_append: "stop_lines (xs @ ys) = stop_lines xs @ stop_lines ys"
  by (induction xs rule: stop_lines.induct) simp_all

lemma stop_lines_signal: "list_all signal_event es \<Longrightarrow> stop_lines es = []"
  by (induction es rule: stop_lines.induct) simp_all

lemma signal_stop_event: "list_all signal_event es \<Longrightarrow> list_all stop_event es"
  by (induction es rule: stop_lines.induct) simp_all

lemma stop_poll_frame:
  "\<exists>es. trace (stop_poll p i st) = trace st @ es \<and> list_all signal_event es"
  "access_rets (stop_poll p i st) = access_rets st"
  "execl_ok (stop_poll p i st) = execl_ok st"
  "need_reap (stop_poll p i st) = need_reap st"
  "terminate (stop_poll p i st) = terminate st"
proof (induction p i st rule: stop_poll.induct)
  case (1 p i st)
  define st' where "st' = emit (EvUsleep 100000) (snd (sys_waitpid p st))"
  have unf: "stop_poll p i st =
      (if i < 50 then (if fst (fst (sys_waitpid p st)) = p then snd (sys_waitpid p st)
                       else stop_poll p (Suc i) st') else st)"
    by (subst stop_poll.simps) (simp add: case_prod_beta st'_def)
  have ih: "i < 50 \<Longrightarrow> fst (fst (sys_waitpid p st)) \<noteq> p \<Longrightarrow>
      (\<exists>es. trace (stop_poll p (Suc i) st') = trace st' @ es \<and> list_all signal_event es)
      \<and> access_rets (stop_poll p (Suc i) st') = access_rets st'
      \<and> execl_ok (stop_poll p (Suc i) st') = execl_ok st'
      \<and> need_reap (stop_poll p (Suc i) st') = need_reap st'
      \<and> terminate (stop_poll p (Suc i) st') = terminate st'"
    using "1.IH" [of "fst (sys_waitpid p st)" "snd (sys_waitpid p st)"] by (simp add: st'_def)
  {
    case 1
    show ?case
    proof (cases "i < 50 \<and> fst (fst (sys_waitpid p st)) \<noteq> p")
      case True
      then obtain es where "trace (stop_poll p (Suc i) st') = trace st' @ es" "list_all signal_event es"
        using ih by blast
      then have "trace (stop_poll p i st) = trace st @ ([EvWaitpid p, EvUsleep 100000] @ es)
                 \<and> list_all signal_event ([EvWaitpid p, EvUsleep 100000] @ es)"
        using True unf by (simp add: st'_def)
      then show ?thesis by blast
    next
      case False
      then have "trace (stop_poll p i st) = trace st @ (if i < 50 then [EvWaitpid p] else [])
                 \<and> list_all signal_event (if i < 50 then [EvWaitpid p] else [])"
        using unf by auto
      then show ?thesis by blast
    qed
  next
    case 2
    show ?case using unf ih by (auto simp: st'_def)
  next
    case 3
    show ?case using unf ih by (auto simp: st'_def)
  next
    case 4
    show ?case using unf ih by (auto simp: st'_def)
  next
    case 5
    show ?case using unf ih by (auto simp: st'_def)
  }
qed

lemma stop_service_idle:
  "\<not> (i < length (services st) \<and> running (services st ! i)) \<Longrightarrow> stop_service (Some i) st = st"
  by (auto simp: stop_service_def)

lemma stop_service_running:
  assumes "i < length (services st)" and "running (services st ! i)"
  shows "\<exists>es. trace (stop_service (Some i) st) =
                trace st @ es @ [EvPrintf (Stopped (name (services st ! i)) (pid (services st ! i)))]
              \<and> list_all signal_event es"
    "services (stop_service (Some i) st) = (services st)[i := (services st ! i)\<lparr>running := False\<rparr>]"
    "access_rets (stop_service (Some i) st) = access_rets st"
    "execl_ok (stop_service (Some i) st) = execl_ok st"
proof -
  define s where "s = services st ! i"
  define st1 where "st1 = emit (EvKill (- pid s) SIGTERM) st"
  define st2 where "st2 = stop_poll (pid s) 0 st1"
  define st3 where "st3 = snd (sys_waitpid (pid s) st2)"
  define st4 where "st4 = (if fst (fst (sys_waitpid (pid s) st2)) \<noteq> pid s
                           then emit (EvKill (- pid s) SIGKILL) st3 else st3)"
  have unf: "stop_service (Some i) st =
               emit (EvPrintf (Stopped (name s) (pid s))) (set_slot i (s\<lparr>running := False\<rparr>) st4)"
    using assms by (simp add: stop_service_def Let_def case_prod_beta s_def st1_def st2_def st3_def st4_def)
  obtain es where es: "trace st2 = trace st1 @ es" "list_all signal_event es"
    using stop_poll_frame(1) [of "pid s" 0 st1] by (auto simp: st2_def)
  have sv: "services st4 = services st"
    by (simp add: st4_def st3_def st2_def st1_def stop_poll_services)
  let ?k = "if fst (fst (sys_waitpid (pid s) st2)) \<noteq> pid s then [EvKill (- pid s) SIGKILL] else []"
  have "trace st4 = trace st @ ([EvKill (- pid s) SIGTERM] @ es @ [EvWaitpid (pid s)] @ ?k)"
    using es(1) by (simp add: st4_def st3_def st1_def)
  moreover have "list_all signal_event ([EvKill (- pid s) SIGTERM] @ es @ [EvWaitpid (pid s)] @ ?k)"
    using es(2) by simp
  ultimately show "\<exists>es. trace (stop_service (Some i) st) =
                trace st @ es @ [EvPrintf (Stopped (name (services st ! i)) (pid (services st ! i)))]
              \<and> list_all signal_event es"
    unfolding unf s_def [symmetric] by (intro exI [of _ "[EvKill (- pid s) SIGTERM] @ es @ [EvWaitpid (pid s)] @ ?k"]) simp
  show "services (stop_service (Some i) st) = (services st)[i := (services st ! i)\<lparr>running := False\<rparr>]"
    unfolding unf by (simp add: sv s_def)
  show "access_rets (stop_service (Some i) st) = access_rets st"
    unfolding unf by (simp add: st4_def st3_def st2_def st1_def stop_poll_frame)
  show "execl_ok (stop_service (Some i) st) = execl_ok st"
    unfolding unf by (simp add: st4_def st3_def st2_def st1_def stop_poll_frame)
qed

lemma stop_all_unfold:
  "stop_all i st = (if i < length (services st) then stop_all (Suc i) (stop_service (Some i) st) else st)"
  by (subst stop_all.simps) simp

text \<open>The loop over the registry calls \<open>stop_service\<close> on every index, in ascending order.\<close>

lemma stop_all_fold:
  "stop_all i st = fold (\<lambda>j. stop_service (Some j)) [i..<length (services st)] st"
proof (induction i st rule: stop_all.induct)
  case (1 i st)
  show ?case
  proof (cases "i < length (services st)")
    case True
    then have "stop_all i st = stop_all (Suc i) (stop_service (Some i) st)"
      by (subst stop_all_unfold) simp
    also have "\<dots> = fold (\<lambda>j. stop_service (Some j)) [Suc i..<length (services st)]
                       (stop_service (Some i) st)"
      using "1.IH" [OF True] by (simp add: stop_service_length)
    finally show ?thesis
      using True by (simp add: upt_conv_Cons)
  next
    case False
    then show ?thesis by (subst stop_all_unfold) simp
  qed
qed

lemma stop_all_effect:
  "\<exists>es. trace (stop_all i st) = trace st @ es \<and> list_all stop_event es
        \<and> stop_lines es = lines_of (drop i (services st))"
  "list_all (\<lambda>s. \<not> running s) (drop i (services (stop_all i st)))"
  "take i (services (stop_all i st)) = take i (services st)"
  "length (services (stop_all i st)) = length (services st)"
  "access_rets (stop_all i st) = access_rets st"
  "execl_ok (stop_all i st) = execl_ok st"
proof (induction i st rule: stop_all.induct)
  case (1 i st)
  define st' where "st' = stop_service (Some i) st"
  have len': "length (services st') = length (services st)"
    by (simp add: st'_def stop_service_length)
  have ih: "i < length (services st) \<Longrightarrow>
      (\<exists>es. trace (stop_all (Suc i) st') = trace st' @ es \<and> list_all stop_event es
           \<and> stop_lines es = lines_of (drop (Suc i) (services st')))
      \<and> list_all (\<lambda>s. \<not> running s) (drop (Suc i) (services (stop_all (Suc i) st')))
      \<and> take (Suc i) (services (stop_all (Suc i) st')) = take (Suc i) (services st')
      \<and> length (services (stop_all (Suc i) st')) = length (services st')
      \<and> access_rets (stop_all (Suc i) st') = access_rets st'
      \<and> execl_ok (stop_all (Suc i) st') = execl_ok st'"
    using "1.IH" by (simp add: st'_def)
  have unf: "stop_all i st = (if i < length (services st) then stop_all (Suc i) st' else st)"
    by (subst stop_all_unfold) (simp add: st'_def)
  have step: "i < length (services st) \<Longrightarrow>
      (\<exists>es. trace st' = trace st @ es \<and> list_all stop_event es
           \<and> stop_lines es = lines_of [services st ! i])
      \<and> services st' = (services st)[i := (services st ! i)\<lparr>running := False\<rparr>]
      \<and> access_rets st' = access_rets st \<and> execl_ok st' = execl_ok st"
  proof (cases "running (services st ! i)")
    case True
    assume lt: "i < length (services st)"
    obtain es where es: "trace st' = trace st @ es @
        [EvPrintf (Stopped (name (services st ! i)) (pid (services st ! i)))]"
        "list_all signal_event es"
      using stop_service_running(1) [OF lt True] unfolding st'_def by blast
    have "list_all stop_event (es @ [EvPrintf (Stopped (name (services st ! i)) (pid (services st ! i)))])"
      using es(2) by (simp add: signal_stop_event)
    moreover have "stop_lines (es @ [EvPrintf (Stopped (name (services st ! i)) (pid (services st ! i)))])
                   = lines_of [services st ! i]"
      using es(2) True by (simp add: stop_lines_append stop_lines_signal lines_of_def)
    ultimately show ?thesis
      using es(1) stop_service_running(2-4) [OF lt True] unfolding st'_def by auto
  next
    case False
    assume lt: "i < length (services st)"
    have "st' = st" using False by (simp add: st'_def stop_service_idle)
    moreover have "(services st)[i := (services st ! i)\<lparr>running := False\<rparr>] = services st"
      using False lt by (simp add: list_update_same_conv)
    ultimately show ?thesis
      using False by (simp add: lines_of_def)
  qed
  have drop': "i < length (services st) \<Longrightarrow> drop (Suc i) (services st') = drop (Suc i) (services st)"
    using step by simp
  have take': "i < length (services st) \<Longrightarrow> take i (services st') = take i (services st)"
    using step by simp
  have nth': "i < length (services st) \<Longrightarrow> \<not> running (services st' ! i)"
    using step by simp
  {
    case 1
    show ?case
    proof (cases "i < length (services st)")
      case True
      obtain es1 where es1: "trace st' = trace st @ es1" "list_all stop_event es1"
          "stop_lines es1 = lines_of [services st ! i]"
        using step [OF True] by blast
      obtain es2 where es2: "trace (stop_all (Suc i) st') = trace st' @ es2" "list_all stop_event es2"
          "stop_lines es2 = lines_of (drop (Suc i) (services st'))"
        using ih [OF True] by blast
      have "lines_of (drop i (services st)) =
            lines_of [services st ! i] @ lines_of (drop (Suc i) (services st))"
        using True by (simp add: lines_of_def Cons_nth_drop_Suc [symmetric])
      then have "trace (stop_all i st) = trace st @ (es1 @ es2) \<and> list_all stop_event (es1 @ es2)
            \<and> stop_lines (es1 @ es2) = lines_of (drop i (services st))"
        using True unf es1 es2 drop' by (simp add: stop_lines_append)
      then show ?thesis by blast
    next
      case False
      then show ?thesis using unf by (simp add: lines_of_def)
    qed
  next
    case 2
    show ?case
    proof (cases "i < length (services st)")
      case True
      have tk: "take (Suc i) (services (stop_all (Suc i) st')) = take (Suc i) (services st')"
        and ln: "length (services (stop_all (Suc i) st')) = length (services st')"
        and dr: "list_all (\<lambda>s. \<not> running s) (drop (Suc i) (services (stop_all (Suc i) st')))"
        using ih [OF True] by auto
      have "services (stop_all (Suc i) st') ! i = services st' ! i"
        using tk by (metis lessI nth_take)
      then have "\<not> running (services (stop_all (Suc i) st') ! i)"
        using nth' True by simp
      moreover have "drop i (services (stop_all (Suc i) st')) =
            services (stop_all (Suc i) st') ! i # drop (Suc i) (services (stop_all (Suc i) st'))"
        using True ln len' by (simp add: Cons_nth_drop_Suc)
      ultimately show ?thesis
        using True unf dr by simp
    next
      case False
      then show ?thesis using unf by simp
    qed
  next
    case 3
    show ?case
    proof (cases "i < length (services st)")
      case True
      have "take (Suc i) (services (stop_all (Suc i) st')) = take (Suc i) (services st')"
        using ih [OF True] by auto
      then have "take i (services (stop_all (Suc i) st')) = take i (services st')"
        by (metis le_add2 plus_1_eq_Suc take_all_iff take_take min.absorb1 Suc_leD order_refl)
      then show ?thesis using True unf take' by simp
    next
      case False
      then show ?thesis using unf by simp
    qed
  next
    case 4
    show ?case using unf ih len' by auto
  next
    case 5
    show ?case using unf ih step by auto
  next
    case 6
    show ?case using unf ih step by auto
  }
qed

lemma main_loop_terminate: "terminate st \<Longrightarrow> main_loop wm sched st = Some (Returns st)"
  by (cases sched) simp_all

text \<open>
  The loop returns only with \<open>terminate\<close> set, what follows it always ends the process,
  and a termination or interrupt request delivered during a sleep ends the loop at its
  next test.
\<close>

lemma main_loop_exit: "main_loop wm sched st = Some (Returns st') \<Longrightarrow> terminate st'"
proof (induction sched arbitrary: st)
  case Nil
  then show ?case
    by (cases "terminate st"; cases "reap_pass wm st") auto
next
  case (Cons sigs sched)
  show ?case
  proof (cases "terminate st")
    case True
    with Cons.prems show ?thesis by simp
  next
    case False
    with Cons.prems Cons.IH show ?thesis
      by (cases "reap_pass wm st") auto
  qed
qed

lemma shutdown_ends_process: "shutdown st \<noteq> Returns st'"
  by (simp add: shutdown_def Let_def case_prod_beta)

lemma supervise_ends_process: "supervise wm sched st \<noteq> Some (Returns st')"
proof (cases "main_loop wm sched st")
  case None
  then show ?thesis by (simp add: supervise_def)
next
  case (Some out)
  then show ?thesis
    by (cases out) (simp_all add: supervise_def shutdown_ends_process)
qed

lemma sigterm_ends_loop:
  "\<not> terminate st \<Longrightarrow> reap_pass wm st = Returns st1 \<Longrightarrow> SIGTERM \<in> set sigs \<or> SIGINT \<in> set sigs \<Longrightarrow>
   supervise wm (sigs # sched) st = Some (shutdown (fold deliver sigs (emit (EvSleep 1) st1)))"
proof -
  have keep: "terminate s \<Longrightarrow> terminate (fold deliver xs s)" for xs s
  proof (induction xs arbitrary: s)
    case Nil
    then show ?case by simp
  next
    case (Cons x xs)
    then show ?case
      by (cases x) (simp_all add: sigchld_handler_def sigterm_handler_def)
  qed
  have set: "SIGTERM \<in> set xs \<or> SIGINT \<in> set xs \<Longrightarrow> terminate (fold deliver xs s)" for xs s
  proof (induction xs arbitrary: s)
    case Nil
    then show ?case by simp
  next
    case (Cons x xs)
    show ?case
    proof (cases "x = SIGTERM \<or> x = SIGINT")
      case True
      then have "terminate (deliver x s)"
        by (auto simp: sigterm_handler_def)
      then show ?thesis by (simp add: keep)
    next
      case False
      with Cons show ?thesis by auto
    qed
  qed
  assume "\<not> terminate st" "reap_pass wm st = Returns st1" "SIGTERM \<in> set sigs \<or> SIGINT \<in> set sigs"
  then show ?thesis
    by (simp add: supervise_def main_loop_terminate set)
qed

text \<open>
  Claim C6. When the loop finds \<open>terminate\<close> set it is left and the shutdown sequence
  runs. After the announcement, \<open>stop_service\<close> is called on every registry entry in
  load order (index 0 up to \<open>nservices - 1\<close>); the calls made meanwhile are those of
  \<open>stop_service\<close> only, the \<open>stopped\<close> lines name the entries that were running in
  registry order, and every entry ends not running. Only then comes \<open>sync\<close>, then the
  \<open>access\<close> check of the helper, and last, if the helper is present, the \<open>execl\<close> of it.
\<close>

theorem shutdown_sequence:
  assumes "terminate st"
  shows "supervise wm sched st = Some (shutdown st)
       \<and> (let st1 = emit (EvPrintf ShuttingDown) st;
               st2 = fold (\<lambda>i. stop_service (Some i)) [0..<length (services st)] st1
           in trace (final_state (shutdown st)) =
                trace st2 @ [EvSync, EvAccess ''/sbin/poweroff''] @
                  (if poweroff_present st then [EvExecl ''/sbin/poweroff'' [''poweroff'']] else [])
            \<and> services (final_state (shutdown st)) = services st2
            \<and> list_all (\<lambda>s. \<not> running s) (services st2)
            \<and> take (length (trace st1)) (trace st2) = trace st1
            \<and> list_all stop_event (drop (length (trace st1)) (trace st2))
            \<and> stop_lines (drop (length (trace st1)) (trace st2)) = lines_of (services st))"
proof -
  define st1 where "st1 = emit (EvPrintf ShuttingDown) st"
  define st2 where "st2 = stop_all 0 st1"
  have fold: "st2 = fold (\<lambda>i. stop_service (Some i)) [0..<length (services st)] st1"
    by (simp add: st2_def stop_all_fold st1_def)
  obtain es where es: "trace st2 = trace st1 @ es" "list_all stop_event es"
      "stop_lines es = lines_of (drop 0 (services st1))"
    using stop_all_effect(1) [of 0 st1] unfolding st2_def by blast
  have stopped: "list_all (\<lambda>s. \<not> running s) (services st2)"
    using stop_all_effect(2) [of 0 st1] by (simp add: st2_def)
  have acc: "access_rets st2 = access_rets st" and ex: "execl_ok st2 = execl_ok st"
    by (simp_all add: st2_def stop_all_effect st1_def)
  have sh: "shutdown st =
      (case sys_access ''/sbin/poweroff'' (emit EvSync st2) of (r, st4) \<Rightarrow>
         if r = 0
         then (case sys_execl ''/sbin/poweroff'' [''poweroff''] st4 of (ok, st5) \<Rightarrow>
                 if ok then Replaced ''/sbin/poweroff'' [''poweroff''] st5 else Exited 0 st5)
         else Exited 0 st4)"
    by (simp add: shutdown_def Let_def st2_def st1_def)
  have pp: "poweroff_present st = (fst (sys_access ''/sbin/poweroff'' (emit EvSync st2)) = 0)"
    by (simp add: poweroff_present_def sys_access_result acc split: list.splits)
  have tr: "trace (final_state (shutdown st)) =
                trace st2 @ [EvSync, EvAccess ''/sbin/poweroff''] @
                  (if poweroff_present st then [EvExecl ''/sbin/poweroff'' [''poweroff'']] else [])"
    unfolding sh pp by (simp add: case_prod_beta)
  have sv: "services (final_state (shutdown st)) = services st2"
    unfolding sh by (simp add: case_prod_beta)
  have "supervise wm sched st = Some (shutdown st)"
    using assms by (simp add: supervise_def main_loop_terminate)
  moreover have "take (length (trace st1)) (trace st2) = trace st1"
    and "list_all stop_event (drop (length (trace st1)) (trace st2))"
    and "stop_lines (drop (length (trace st1)) (trace st2)) = lines_of (services st)"
    using es by (simp_all add: st1_def)
  ultimately show ?thesis
    using tr sv stopped unfolding Let_def fold [symmetric] st1_def [symmetric] by simp
qed

theorem shutdown_sequence_witness:
  "supervise linux_wait [] ex_shutdown =
     Some (Replaced ''/sbin/poweroff'' [''poweroff'']
       ((ex_state [ex_entry ''web'' R_ALWAYS 100 False, ex_entry ''idle'' R_NO 7 False,
                   ex_entry ''db'' R_NO 200 False])
          \<lparr>terminate := True,
            trace := [EvPrintf ShuttingDown,
                      EvKill (- 100) SIGTERM, EvWaitpid 100, EvUsleep 100000, EvWaitpid 100,
                      EvWaitpid 100, EvKill (- 100) SIGKILL, EvPrintf (Stopped ''web'' 100),
                      EvKill (- 200) SIGTERM, EvWaitpid 200, EvWaitpid 200,
                      EvKill (- 200) SIGKILL, EvPrintf (Stopped ''db'' 200),
                      EvSync, EvAccess ''/sbin/poweroff'',
                      EvExecl ''/sbin/poweroff'' [''poweroff'']]\<rparr>))"
proof -
  have "terminate ex_shutdown"
    by (simp add: ex_shutdown_def)
  then have "supervise linux_wait [] ex_shutdown = Some (shutdown ex_shutdown)"
    using shutdown_sequence [of ex_shutdown linux_wait "[]"] by blast
  moreover have "shutdown ex_shutdown =
     Replaced ''/sbin/poweroff'' [''poweroff'']
       ((ex_state [ex_entry ''web'' R_ALWAYS 100 False, ex_entry ''idle'' R_NO 7 False,
                   ex_entry ''db'' R_NO 200 False])
          \<lparr>terminate := True,
            trace := [EvPrintf ShuttingDown,
                      EvKill (- 100) SIGTERM, EvWaitpid 100, EvUsleep 100000, EvWaitpid 100,
                      EvWaitpid 100, EvKill (- 100) SIGKILL, EvPrintf (Stopped ''web'' 100),
                      EvKill (- 200) SIGTERM, EvWaitpid 200, EvWaitpid 200,
                      EvKill (- 200) SIGKILL, EvPrintf (Stopped ''db'' 200),
                      EvSync, EvAccess ''/sbin/poweroff'',
                      EvExecl ''/sbin/poweroff'' [''poweroff'']]\<rparr>)"
    by (simp add: shutdown_def stop_all.simps stop_service_def stop_poll.simps sys_waitpid_def
        sys_access_def sys_execl_def emit_def set_slot_def ex_shutdown_def ex_state_def
        ex_entry_def Let_def)
  ultimately show ?thesis by simp
qed

subsection \<open>What a line of a service file assigns\<close>

lemma parse_line_field:
  "parse_line line b = (case line_field line of None \<Rightarrow> b | Some (k, v) \<Rightarrow> set_buf k v b)"
  by (simp add: parse_line_def line_field_def Let_def split: option.splits prod.splits)

lemma buf_of_set_buf: "buf_of k (set_buf k' v b) = (if k = k' then v else buf_of k b)"
  by (cases k; cases k') simp_all

lemma parse_line_other:
  "map_option fst (line_field l) \<noteq> Some k \<Longrightarrow> buf_of k (parse_line l b) = buf_of k b"
  by (auto simp: parse_line_field buf_of_set_buf split: option.splits)

lemma parse_line_same:
  "line_field l = Some (k, v) \<Longrightarrow> buf_of k (parse_line l b) = v"
  by (simp add: parse_line_field buf_of_set_buf)

lemma parse_lines_append: "parse_lines (xs @ ys) b = parse_lines ys (parse_lines xs b)"
  by (induction xs arbitrary: b) simp_all

lemma parse_lines_other:
  "\<forall>l \<in> set ls. map_option fst (line_field l) \<noteq> Some k \<Longrightarrow>
   buf_of k (parse_lines ls b) = buf_of k b"
  by (induction ls arbitrary: b) (simp_all add: parse_line_other)

lemma line_field_name_length: "line_field l = Some (K_NAME, v) \<Longrightarrow> length v \<le> 127"
  by (auto simp: line_field_def Let_def strncpy_def split: option.splits if_splits)

text \<open>A line written \<open>key=value\<close> assigns the trimmed value.\<close>

lemma line_field_syntax:
  assumes "CHR ''='' \<notin> set k" and "CHR 0x00 \<notin> set (k @ v)"
  shows "line_field (k @ ''='' @ v) =
     (if strcasecmp_eq (trim k) ''name'' then Some (K_NAME, take 127 (trim v))
      else if strcasecmp_eq (trim k) ''execstart'' then Some (K_EXEC, take 1023 (trim v))
      else if strcasecmp_eq (trim k) ''restart'' then Some (K_RESTART, take 1023 (trim v))
      else None)"
proof -
  have c: "c_str (k @ CHR ''='' # v) = k @ CHR ''='' # v"
    using assms(2) by (auto simp: c_str_def takeWhile_eq_all_conv)
  have tw: "takeWhile (\<lambda>c. c \<noteq> CHR ''='') (k @ CHR ''='' # v) = k"
    using assms(1) by (auto simp: takeWhile_tail takeWhile_eq_all_conv)
  have dw: "dropWhile (\<lambda>c. c \<noteq> CHR ''='') (k @ CHR ''='' # v) = CHR ''='' # v"
    using assms(1) by (auto simp: dropWhile_append3 dropWhile_eq_Nil_conv)
  have s: "split_eq (k @ CHR ''='' # v) = Some (k, v)"
    by (simp add: split_eq_def tw dw)
  have ci: "strcasecmp_eq x ''Name'' = strcasecmp_eq x ''name''"
    "strcasecmp_eq x ''ExecStart'' = strcasecmp_eq x ''execstart''"
    "strcasecmp_eq x ''Restart'' = strcasecmp_eq x ''restart''" for x
    by (simp_all add: strcasecmp_eq_def tolower_def)
  show ?thesis
    by (simp add: line_field_def c s ci Let_def strncpy_def MAX_LINE_def)
qed

text \<open>
  Claim C10. When a key occurs on several lines of a file the last occurrence wins: if
  line \<open>l\<close> assigns value \<open>v\<close> to key \<open>k\<close> and no line after it assigns \<open>k\<close>, then
  whatever the lines before \<open>l\<close> assigned, the buffer of \<open>k\<close> holds \<open>v\<close> after the
  loop, and the service built from the buffers carries it (as its name, its command, or
  the restart policy that \<open>v\<close> resolves to).
\<close>

theorem last_occurrence_wins:
  assumes "line_field l = Some (k, v)"
    and "\<forall>l' \<in> set post. map_option fst (line_field l') \<noteq> Some k"
  shows "buf_of k (parse_lines (pre @ l # post) b) = v
       \<and> (case k of
            K_NAME \<Rightarrow> name (new_service (parse_lines (pre @ l # post) b)) = v
          | K_EXEC \<Rightarrow> execcmd (new_service (parse_lines (pre @ l # post) b)) = Some v
          | K_RESTART \<Rightarrow> restart (new_service (parse_lines (pre @ l # post) b)) = restart_of v)"
proof -
  have "buf_of k (parse_lines (pre @ l # post) b) = buf_of k (parse_line l (parse_lines pre b))"
    using assms(2) by (simp add: parse_lines_append parse_lines_other)
  then have win: "buf_of k (parse_lines (pre @ l # post) b) = v"
    using assms(1) by (simp add: parse_line_same)
  show ?thesis
  proof (cases k)
    case K_NAME
    then have "length v \<le> 127"
      using assms(1) by (simp add: line_field_name_length)
    then show ?thesis
      using win K_NAME by (simp add: new_service_def strncpy_def)
  next
    case K_EXEC
    then show ?thesis using win by (simp add: new_service_def)
  next
    case K_RESTART
    then show ?thesis using win by (simp add: new_service_def)
  qed
qed

theorem last_occurrence_wins_witness:
  "buf_name (parse_lines (file_lines ex_twice) init_bufs) = ''new''
   \<and> name (new_service (parse_lines (file_lines ex_twice) init_bufs)) = ''new''"
proof -
  have fl: "file_lines ex_twice =
      [''Name=old'' @ [CHR 0x0A]] @ (''name = new '' @ [CHR 0x0A]) # [''ExecStart=/bin/a'' @ [CHR 0x0A]]"
    by code_simp
  have lf: "line_field (''name = new '' @ [CHR 0x0A]) = Some (K_NAME, ''new'')"
    by code_simp
  have "line_field (''ExecStart=/bin/a'' @ [CHR 0x0A]) = Some (K_EXEC, ''/bin/a'')"
    by code_simp
  then have post: "\<forall>l' \<in> set [''ExecStart=/bin/a'' @ [CHR 0x0A]].
      map_option fst (line_field l') \<noteq> Some K_NAME"
    by simp
  show ?thesis
    using last_occurrence_wins [OF lf post, of "[''Name=old'' @ [CHR 0x0A]]" init_bufs]
    by (simp add: fl)
qed

subsection \<open>What a service file yields\<close>

lemma parse_service_file_alt:
  "parse_service_file f st =
     (case file_service f of
        None \<Rightarrow> st
      | Some s \<Rightarrow> if length (services st) < MAX_SVC
                  then st\<lparr>services := services st @ [s]\<rparr> else st)"
  by (auto simp: parse_service_file_def file_service_def file_bufs_def Let_def split: option.splits)

text \<open>Matching without regard to case is equality after lowering the case.\<close>

lemma strcasecmp_lower:
  "strcasecmp_eq r ''always'' = (map tolower r = ''always'')"
  "strcasecmp_eq r ''on-failure'' = (map tolower r = ''on-failure'')"
  by (simp_all add: strcasecmp_eq_def tolower_def)

lemma no_restart_line:
  "\<forall>l \<in> set ls. map_option fst (line_field l) \<noteq> Some K_RESTART \<Longrightarrow>
   buf_restart (parse_lines ls init_bufs) = ''no''"
  using parse_lines_other [of ls K_RESTART init_bufs] by (simp add: init_bufs_def)

lemma parse_line_name_length:
  "length (buf_name b) \<le> 127 \<Longrightarrow> length (buf_name (parse_line l b)) \<le> 127"
proof (cases "line_field l")
  case None
  then show "length (buf_name b) \<le> 127 \<Longrightarrow> ?thesis"
    by (simp add: parse_line_field)
next
  case (Some kv)
  assume le: "length (buf_name b) \<le> 127"
  obtain k v where kv: "kv = (k, v)" by (cases kv)
  show ?thesis
  proof (cases k)
    case K_NAME
    then show ?thesis
      using Some kv line_field_name_length [of l v] by (simp add: parse_line_field)
  next
    case K_EXEC
    then show ?thesis using Some kv le by (simp add: parse_line_field)
  next
    case K_RESTART
    then show ?thesis using Some kv le by (simp add: parse_line_field)
  qed
qed

lemma parse_lines_name_length:
  "length (buf_name b) \<le> 127 \<Longrightarrow> length (buf_name (parse_lines ls b)) \<le> 127"
  by (induction ls arbitrary: b) (simp_all add: parse_line_name_length)

lemma file_bufs_name_length: "length (buf_name (file_bufs content)) \<le> 127"
  unfolding file_bufs_def by (rule parse_lines_name_length) (simp add: init_bufs_def)

text \<open>What a file yields while the registry has room.\<close>

lemma parse_service_file_room:
  assumes "length (services st) < MAX_SVC"
  shows "(if buf_name (file_bufs content) \<noteq> [] \<and> buf_exec (file_bufs content) \<noteq> []
          then \<exists>s. parse_service_file (Some content) st = st\<lparr>services := services st @ [s]\<rparr>
                 \<and> name s = buf_name (file_bufs content)
                 \<and> execcmd s = Some (buf_exec (file_bufs content))
                 \<and> restart s =
                     (if map tolower (buf_restart (file_bufs content)) = ''always'' then R_ALWAYS
                      else if map tolower (buf_restart (file_bufs content)) = ''on-failure''
                      then R_ON_FAILURE else R_NO)
                 \<and> ((\<forall>l \<in> set (file_lines content).
                        map_option fst (line_field l) \<noteq> Some K_RESTART) \<longrightarrow> restart s = R_NO)
          else parse_service_file (Some content) st = st)
       \<and> parse_service_file None st = st"
proof -
  let ?b = "file_bufs content"
  have nm: "name (new_service ?b) = buf_name ?b"
    using file_bufs_name_length [of content] by (simp add: new_service_def strncpy_def)
  have ex: "execcmd (new_service ?b) = Some (buf_exec ?b)"
    by (simp add: new_service_def)
  have rs: "restart (new_service ?b) =
      (if map tolower (buf_restart ?b) = ''always'' then R_ALWAYS
       else if map tolower (buf_restart ?b) = ''on-failure'' then R_ON_FAILURE else R_NO)"
    by (simp add: new_service_def restart_of_def strcasecmp_lower)
  have absent: "restart (new_service ?b) = R_NO"
    if "\<forall>l \<in> set (file_lines content). map_option fst (line_field l) \<noteq> Some K_RESTART"
  proof -
    have "buf_restart ?b = ''no''"
      unfolding file_bufs_def using that by (rule no_restart_line)
    then show ?thesis
      by (simp add: rs tolower_def)
  qed
  have none: "parse_service_file None st = st"
    by (simp add: parse_service_file_def)
  show ?thesis
  proof (cases "buf_name ?b \<noteq> [] \<and> buf_exec ?b \<noteq> []")
    case True
    then have "parse_service_file (Some content) st = st\<lparr>services := services st @ [new_service ?b]\<rparr>"
      using assms by (simp add: parse_service_file_alt file_service_def)
    then have "\<exists>s. parse_service_file (Some content) st = st\<lparr>services := services st @ [s]\<rparr>
                 \<and> name s = buf_name ?b
                 \<and> execcmd s = Some (buf_exec ?b)
                 \<and> restart s =
                     (if map tolower (buf_restart ?b) = ''always'' then R_ALWAYS
                      else if map tolower (buf_restart ?b) = ''on-failure''
                      then R_ON_FAILURE else R_NO)
                 \<and> ((\<forall>l \<in> set (file_lines content).
                        map_option fst (line_field l) \<noteq> Some K_RESTART) \<longrightarrow> restart s = R_NO)"
      using nm ex rs absent by (intro exI [of _ "new_service ?b"]) simp
    then show ?thesis
      unfolding if_P [OF True] using none by blast
  next
    case False
    then have "parse_service_file (Some content) st = st"
      by (simp add: parse_service_file_alt file_service_def)
    then show ?thesis
      unfolding if_not_P [OF False] using none by blast
  qed
qed

text \<open>
  Claim C3, amended. While the registry holds fewer than \<open>MAX_SVC\<close> entries, a file
  yields exactly one service, appended to the registry, if and only if the name and the
  command end up non-empty; the service has that name and command, and its policy is
  \<open>R_ALWAYS\<close> for the restart value \<open>always\<close>, \<open>R_ON_FAILURE\<close> for \<open>on-failure\<close> (both
  in any case of letters) and \<open>R_NO\<close> for any other value and when no line gives one.
  Otherwise the state is unchanged, no service and no error: for a file that leaves the
  name or the command empty, for a file that cannot be opened, and for every file once
  the registry holds \<open>MAX_SVC\<close> entries.
\<close>

theorem parse_service_file_yields:
  "(length (services st) < MAX_SVC \<longrightarrow>
      (if buf_name (file_bufs content) \<noteq> [] \<and> buf_exec (file_bufs content) \<noteq> []
       then \<exists>s. parse_service_file (Some content) st = st\<lparr>services := services st @ [s]\<rparr>
              \<and> name s = buf_name (file_bufs content)
              \<and> execcmd s = Some (buf_exec (file_bufs content))
              \<and> restart s =
                  (if map tolower (buf_restart (file_bufs content)) = ''always'' then R_ALWAYS
                   else if map tolower (buf_restart (file_bufs content)) = ''on-failure''
                   then R_ON_FAILURE else R_NO)
              \<and> ((\<forall>l \<in> set (file_lines content).
                     map_option fst (line_field l) \<noteq> Some K_RESTART) \<longrightarrow> restart s = R_NO)
       else parse_service_file (Some content) st = st))
   \<and> (MAX_SVC \<le> length (services st) \<longrightarrow> parse_service_file f st = st)
   \<and> parse_service_file None st = st"
proof -
  have full: "parse_service_file f st = st" if "MAX_SVC \<le> length (services st)"
    using that by (simp add: parse_service_file_alt split: option.splits)
  have none: "parse_service_file None st = st"
    by (simp add: parse_service_file_def)
  show ?thesis
    using parse_service_file_room [of st content] full none by blast
qed

text \<open>
  Claim C3 as stated fails when the registry is full: the file \<open>ex_file\<close> ends up with the
  name \<open>web\<close> and the command \<open>/bin/true\<close>, both non-empty, and yields no service.
\<close>

theorem full_registry_skips_valid_file:
  "buf_name (file_bufs ex_file) = ''web'' \<and> buf_exec (file_bufs ex_file) = ''/bin/true''
   \<and> parse_service_file (Some ex_file) ex_full = ex_full"
proof -
  have b: "file_bufs ex_file = \<lparr>buf_name = ''web'', buf_exec = ''/bin/true'', buf_restart = ''no''\<rparr>"
    by code_simp
  have "length (services ex_full) = 128"
    by (simp add: ex_full_def ex_state_def)
  then have "parse_service_file (Some ex_file) ex_full = ex_full"
    by (simp add: parse_service_file_alt MAX_SVC_def split: option.splits)
  with b show ?thesis by simp
qed

text \<open>
  The file \<open>ex_file\<close>, which has no \<open>Restart\<close> line, read into an empty registry (one
  service, policy \<open>R_NO\<close>) and into a full one; and a file that cannot be opened.
\<close>

theorem parse_service_file_yields_witness:
  "parse_service_file (Some ex_file) (ex_state []) =
     (ex_state [\<lparr> name = ''web'', execcmd = Some ''/bin/true'', restart = R_NO, pid = 0,
                    running = False, logfile = ''/var/log/web.log'' \<rparr>])
   \<and> parse_service_file (Some ex_file) ex_full = ex_full
   \<and> parse_service_file None ex_full = ex_full"
proof -
  have b: "file_bufs ex_file = \<lparr>buf_name = ''web'', buf_exec = ''/bin/true'', buf_restart = ''no''\<rparr>"
    by code_simp
  have room: "length (services (ex_state [])) < MAX_SVC"
    by (simp add: ex_state_def MAX_SVC_def)
  have fullr: "MAX_SVC \<le> length (services ex_full)"
    by (simp add: ex_full_def ex_state_def MAX_SVC_def)
  obtain s where s: "parse_service_file (Some ex_file) (ex_state []) =
      (ex_state [])\<lparr>services := services (ex_state []) @ [s]\<rparr>"
      "name s = ''web''" "execcmd s = Some ''/bin/true''" "restart s = R_NO"
    using parse_service_file_yields [of "ex_state []" ex_file None] room
    by (auto simp: b tolower_def)
  have "parse_service_file (Some ex_file) (ex_state []) =
      (ex_state [])\<lparr>services := services (ex_state []) @ [new_service (file_bufs ex_file)]\<rparr>"
    by (simp add: parse_service_file_alt file_service_def b ex_state_def MAX_SVC_def)
  then have one: "parse_service_file (Some ex_file) (ex_state []) =
     (ex_state [\<lparr> name = ''web'', execcmd = Some ''/bin/true'', restart = R_NO, pid = 0,
                    running = False, logfile = ''/var/log/web.log'' \<rparr>])"
    using s(1)
    by (simp add: b new_service_def strncpy_def restart_of_def strcasecmp_eq_def tolower_def
        LOGDIR_def ex_state_def)
  have "parse_service_file (Some ex_file) ex_full = ex_full"
    using parse_service_file_yields [of ex_full ex_file "Some ex_file"] fullr by blast
  moreover have "parse_service_file None ex_full = ex_full"
    using parse_service_file_yields [of ex_full ex_file None] by blast
  ultimately show ?thesis
    using one by simp
qed

subsection \<open>Loading more files than the registry holds\<close>

text \<open>
  Whatever the registry holds before, the scan appends the services of the valid files in
  order until the registry holds \<open>MAX_SVC\<close> entries, and changes nothing else.
\<close>

lemma scan_dir_keeps_first:
  "scan_dir fs es st =
     st\<lparr>services := services st @ take (MAX_SVC - length (services st)) (valid_services fs es)\<rparr>"
proof (induction es arbitrary: st)
  case Nil
  then show ?case by simp
next
  case (Cons e es)
  show ?case
  proof (cases "listed e")
    case False
    then have "scan_dir fs (e # es) st = scan_dir fs es st"
      by (auto simp: listed_def)
    then show ?thesis
      using False by (simp add: Cons.IH)
  next
    case True
    then have step: "scan_dir fs (e # es) st = scan_dir fs es (parse_service_file (fs (path_of e)) st)"
      by (auto simp: listed_def path_of_def)
    show ?thesis
    proof (cases "file_service (fs (path_of e))")
      case None
      then show ?thesis
        using True step by (simp add: parse_service_file_alt Cons.IH)
    next
      case (Some s)
      show ?thesis
      proof (cases "length (services st) < MAX_SVC")
        case room: True
        then have "MAX_SVC - length (services st) = Suc (MAX_SVC - Suc (length (services st)))"
          by simp
        then show ?thesis
          using True step Some room by (simp add: parse_service_file_alt Cons.IH)
      next
        case full: False
        then show ?thesis
          using True step Some by (simp add: parse_service_file_alt Cons.IH)
      qed
    qed
  qed
qed

text \<open>
  Claim C5. When the services directory holds more valid files than \<open>MAX_SVC\<close>, loading
  into the empty registry keeps exactly the first \<open>MAX_SVC\<close> of them, in the order of the
  directory listing. The files after them are dropped without a trace: but for the
  registry the state is as before, nothing is logged and nothing fails.
\<close>

theorem load_keeps_first_capacity:
  assumes "dir_entries fsys = Some es"
    and "services st = []"
    and "MAX_SVC < length (valid_services (file_at fsys) es)"
  shows "load_services fsys st = st\<lparr>services := take MAX_SVC (valid_services (file_at fsys) es)\<rparr>
       \<and> length (services (load_services fsys st)) = MAX_SVC
       \<and> trace (load_services fsys st) = trace st"
  using assms by (simp add: load_services_def scan_dir_keeps_first)

lemma valid_services_const:
  "\<forall>e \<in> set es. listed e \<Longrightarrow> (\<And>p. file_service (fs p) = Some s) \<Longrightarrow>
   valid_services fs es = replicate (length es) s"
  by (induction es) simp_all

theorem load_keeps_first_capacity_witness:
  "length ex_dir = 130
   \<and> services (load_services ex_fsys (ex_state [])) =
       replicate 128 \<lparr> name = ''web'', execcmd = Some ''/bin/true'', restart = R_NO, pid = 0,
                       running = False, logfile = ''/var/log/web.log'' \<rparr>
   \<and> trace (load_services ex_fsys (ex_state [])) = []"
proof -
  let ?s = "\<lparr> name = ''web'', execcmd = Some ''/bin/true'', restart = R_NO, pid = 0,
              running = False, logfile = ''/var/log/web.log'' \<rparr>"
  have len: "length ex_dir = 130"
    by (simp add: ex_dir_def)
  have b: "file_bufs ex_file = \<lparr>buf_name = ''web'', buf_exec = ''/bin/true'', buf_restart = ''no''\<rparr>"
    by code_simp
  have fs: "file_service (file_at ex_fsys p) = Some ?s" for p
    by (simp add: ex_fsys_def file_service_def b new_service_def strncpy_def restart_of_def
        strcasecmp_eq_def tolower_def LOGDIR_def)
  have "\<forall>e \<in> set ex_dir. listed e"
    by (auto simp: ex_dir_def listed_def)
  then have vs: "valid_services (file_at ex_fsys) ex_dir = replicate 130 ?s"
    using valid_services_const [of ex_dir "file_at ex_fsys" ?s] fs len by simp
  have de: "dir_entries ex_fsys = Some ex_dir"
    by (simp add: ex_fsys_def)
  have em: "services (ex_state []) = []"
    by (simp add: ex_state_def)
  have more: "MAX_SVC < length (valid_services (file_at ex_fsys) ex_dir)"
    by (simp add: vs MAX_SVC_def)
  have "load_services ex_fsys (ex_state []) =
          (ex_state [])\<lparr>services := take MAX_SVC (valid_services (file_at ex_fsys) ex_dir)\<rparr>
        \<and> length (services (load_services ex_fsys (ex_state []))) = MAX_SVC
        \<and> trace (load_services ex_fsys (ex_state [])) = trace (ex_state [])"
    using de em more by (rule load_keeps_first_capacity)
  then show ?thesis
    using len by (simp add: vs MAX_SVC_def ex_state_def)
qed

subsection \<open>Stopping twice\<close>

lemma kills_append: "kills sg (xs @ ys) = kills sg xs @ kills sg ys"
  by (induction sg xs rule: kills.induct) simp_all

lemma kills_none: "\<not> list_ex is_kill es \<Longrightarrow> kills sg es = []"
  by (induction sg es rule: kills.induct) simp_all

text \<open>The calls of the polling loop, entered before its fiftieth round: polls and sleeps only.\<close>

lemma stop_poll_polls:
  "\<exists>polls. trace (stop_poll p i st) = trace st @ polls
        \<and> set polls \<subseteq> {EvWaitpid p, EvUsleep 100000}
        \<and> (if i < 50 then polls \<noteq> [] else polls = [])"
proof (induction p i st rule: stop_poll.induct)
  case (1 p i st)
  define st' where "st' = emit (EvUsleep 100000) (snd (sys_waitpid p st))"
  have unf: "stop_poll p i st =
      (if i < 50 then (if fst (fst (sys_waitpid p st)) = p then snd (sys_waitpid p st)
                       else stop_poll p (Suc i) st') else st)"
    by (subst stop_poll.simps) (simp add: case_prod_beta st'_def)
  show ?case
  proof (cases "i < 50 \<and> fst (fst (sys_waitpid p st)) \<noteq> p")
    case True
    then obtain polls where "trace (stop_poll p (Suc i) st') = trace st' @ polls"
        and "set polls \<subseteq> {EvWaitpid p, EvUsleep 100000}"
      using "1.IH" [of "fst (sys_waitpid p st)" "snd (sys_waitpid p st)"] by (auto simp: st'_def)
    then have "trace (stop_poll p i st) = trace st @ ([EvWaitpid p, EvUsleep 100000] @ polls)
        \<and> set ([EvWaitpid p, EvUsleep 100000] @ polls) \<subseteq> {EvWaitpid p, EvUsleep 100000}
        \<and> (if i < 50 then [EvWaitpid p, EvUsleep 100000] @ polls \<noteq> []
            else [EvWaitpid p, EvUsleep 100000] @ polls = [])"
      using True unf by (simp add: st'_def)
    then show ?thesis by blast
  next
    case False
    then have "trace (stop_poll p i st) = trace st @ (if i < 50 then [EvWaitpid p] else [])
        \<and> set (if i < 50 then [EvWaitpid p] else []) \<subseteq> {EvWaitpid p, EvUsleep 100000}
        \<and> (if i < 50 then (if i < 50 then [EvWaitpid p] else []) \<noteq> []
            else (if i < 50 then [EvWaitpid p] else []) = [])"
      using unf by auto
    then show ?thesis by blast
  qed
qed

text \<open>
  The termination sequence of an entry that is marked running: the signal to the group,
  the polls, the query after the loop, the kill if any, and the log line.
\<close>

lemma stop_service_sequence:
  assumes "i < length (services st)" and "running (services st ! i)"
  shows "\<exists>polls esc. trace (stop_service (Some i) st) =
            trace st @ [EvKill (- pid (services st ! i)) SIGTERM] @ polls @
              [EvWaitpid (pid (services st ! i))] @ esc @
              [EvPrintf (Stopped (name (services st ! i)) (pid (services st ! i)))]
          \<and> polls \<noteq> [] \<and> set polls \<subseteq> {EvWaitpid (pid (services st ! i)), EvUsleep 100000}
          \<and> (esc = [] \<or> esc = [EvKill (- pid (services st ! i)) SIGKILL])"
proof -
  define s where "s = services st ! i"
  define st1 where "st1 = emit (EvKill (- pid s) SIGTERM) st"
  define st2 where "st2 = stop_poll (pid s) 0 st1"
  define st3 where "st3 = snd (sys_waitpid (pid s) st2)"
  define esc where "esc = (if fst (fst (sys_waitpid (pid s) st2)) \<noteq> pid s
                           then [EvKill (- pid s) SIGKILL] else [])"
  define st4 where "st4 = (if fst (fst (sys_waitpid (pid s) st2)) \<noteq> pid s
                           then emit (EvKill (- pid s) SIGKILL) st3 else st3)"
  have unf: "stop_service (Some i) st =
               emit (EvPrintf (Stopped (name s) (pid s))) (set_slot i (s\<lparr>running := False\<rparr>) st4)"
    using assms by (simp add: stop_service_def Let_def case_prod_beta s_def st1_def st2_def st3_def st4_def)
  obtain polls where polls: "trace st2 = trace st1 @ polls"
      "set polls \<subseteq> {EvWaitpid (pid s), EvUsleep 100000}" "polls \<noteq> []"
    using stop_poll_polls [of "pid s" 0 st1] by (auto simp: st2_def)
  have "trace st4 = trace st @ [EvKill (- pid s) SIGTERM] @ polls @ [EvWaitpid (pid s)] @ esc"
    using polls(1) by (simp add: st4_def st3_def st1_def esc_def)
  then have "trace (stop_service (Some i) st) =
      trace st @ [EvKill (- pid s) SIGTERM] @ polls @ [EvWaitpid (pid s)] @ esc @
        [EvPrintf (Stopped (name s) (pid s))]"
    unfolding unf by simp
  moreover have "esc = [] \<or> esc = [EvKill (- pid s) SIGKILL]"
    by (simp add: esc_def)
  ultimately show ?thesis
    using polls(2,3) unfolding s_def by blast
qed

lemma kills_polls: "set polls \<subseteq> {EvWaitpid p, EvUsleep n} \<Longrightarrow> kills sg polls = []"
  by (induction sg polls rule: kills.induct) auto

lemma stop_lines_polls: "set polls \<subseteq> {EvWaitpid p, EvUsleep n} \<Longrightarrow> stop_lines polls = []"
  by (induction polls rule: stop_lines.induct) auto

text \<open>
  Claim C8. Two calls of \<open>stop_service\<close> in succession do what one does: the second
  returns the state the first left. For an entry that is marked running, the first call
  marks it not running and changes no other entry, and over both calls the termination
  sequence is performed exactly once: one \<open>SIGTERM\<close> to the group of the service, the
  polling of its pid, at most one \<open>SIGKILL\<close>, and one \<open>stopped\<close> line. On an entry
  that is not marked running, and on \<open>NULL\<close>, a call changes nothing.
\<close>

theorem stop_service_idempotent:
  "stop_service sp (stop_service sp st) = stop_service sp st
   \<and> (case sp of
        None \<Rightarrow> stop_service sp st = st
      | Some i \<Rightarrow>
          if i < length (services st) \<and> running (services st ! i)
          then services (stop_service sp st) = (services st)[i := (services st ! i)\<lparr>running := False\<rparr>]
             \<and> \<not> running (services (stop_service sp st) ! i)
             \<and> take (length (trace st)) (trace (stop_service sp (stop_service sp st))) = trace st
             \<and> kills SIGTERM (new_events st (stop_service sp (stop_service sp st))) =
                 [- pid (services st ! i)]
             \<and> EvWaitpid (pid (services st ! i)) \<in>
                 set (new_events st (stop_service sp (stop_service sp st)))
             \<and> length (kills SIGKILL (new_events st (stop_service sp (stop_service sp st)))) \<le> 1
             \<and> stop_lines (new_events st (stop_service sp (stop_service sp st))) =
                 [(name (services st ! i), pid (services st ! i))]
          else stop_service sp st = st)"
proof -
  have idem: "stop_service sp (stop_service sp st) = stop_service sp st"
  proof (cases sp)
    case None
    then show ?thesis by (simp add: stop_service_def)
  next
    case (Some i)
    show ?thesis
    proof (cases "i < length (services st)")
      case False
      then show ?thesis using Some by (simp add: stop_service_def)
    next
      case True
      then have "\<not> running (services (stop_service (Some i) st) ! i)"
        by (simp add: stop_service_def Let_def case_prod_beta stop_poll_services)
      moreover have "i < length (services (stop_service (Some i) st))"
        using True by (simp add: stop_service_length)
      ultimately have "stop_service (Some i) (stop_service (Some i) st) = stop_service (Some i) st"
        by (subst stop_service_def) (simp add: Let_def)
      with Some show ?thesis by simp
    qed
  qed
  show ?thesis
  proof (cases sp)
    case None
    then show ?thesis using idem by (simp add: stop_service_def)
  next
    case (Some i)
    show ?thesis
    proof (cases "i < length (services st) \<and> running (services st ! i)")
      case False
      then have "stop_service (Some i) st = st"
        by (rule stop_service_idle)
      then show ?thesis using Some False idem by simp
    next
      case True
      then have lt: "i < length (services st)" and run: "running (services st ! i)"
        by simp_all
      let ?p = "pid (services st ! i)"
      obtain polls esc where tr: "trace (stop_service (Some i) st) =
            trace st @ [EvKill (- ?p) SIGTERM] @ polls @ [EvWaitpid ?p] @ esc @
              [EvPrintf (Stopped (name (services st ! i)) ?p)]"
          and polls: "set polls \<subseteq> {EvWaitpid ?p, EvUsleep 100000}"
          and esc: "esc = [] \<or> esc = [EvKill (- ?p) SIGKILL]"
        using stop_service_sequence [OF lt run] by blast
      have new: "new_events st (stop_service (Some i) st) =
            [EvKill (- ?p) SIGTERM] @ polls @ [EvWaitpid ?p] @ esc @
              [EvPrintf (Stopped (name (services st ! i)) ?p)]"
        by (simp add: new_events_def tr)
      have sv: "services (stop_service (Some i) st) =
            (services st)[i := (services st ! i)\<lparr>running := False\<rparr>]"
        using stop_service_running(2) [OF lt run] .
      have nr: "\<not> running (services (stop_service (Some i) st) ! i)"
        using lt by (simp add: sv)
      have k1: "kills SIGTERM (new_events st (stop_service (Some i) st)) = [- ?p]"
        using esc by (auto simp: new kills_append kills_polls [OF polls])
      have k2: "length (kills SIGKILL (new_events st (stop_service (Some i) st))) \<le> 1"
        using esc by (auto simp: new kills_append kills_polls [OF polls])
      have sl: "stop_lines (new_events st (stop_service (Some i) st)) =
            [(name (services st ! i), ?p)]"
        using esc by (auto simp: new stop_lines_append stop_lines_polls [OF polls])
      have wp: "EvWaitpid ?p \<in> set (new_events st (stop_service (Some i) st))"
        by (simp add: new)
      have pre: "take (length (trace st)) (trace (stop_service (Some i) st)) = trace st"
        by (simp add: tr)
      show ?thesis
        using Some True idem sv nr k1 k2 sl wp pre by simp
    qed
  qed
qed

text \<open>
  A running service with pid 100 whose end is seen by the second poll: both calls
  together send one \<open>SIGTERM\<close> and print one line.
\<close>

theorem stop_service_idempotent_witness:
  "trace (stop_service (Some 0) (stop_service (Some 0)
      ((ex_state [ex_entry ''web'' R_NO 100 True])\<lparr>wait_rets := [(0, 0), (100, 0)]\<rparr>))) =
     [EvKill (- 100) SIGTERM, EvWaitpid 100, EvUsleep 100000, EvWaitpid 100, EvWaitpid 100,
      EvKill (- 100) SIGKILL, EvPrintf (Stopped ''web'' 100)]
   \<and> services (stop_service (Some 0) (stop_service (Some 0)
      ((ex_state [ex_entry ''web'' R_NO 100 True])\<lparr>wait_rets := [(0, 0), (100, 0)]\<rparr>))) =
     [ex_entry ''web'' R_NO 100 False]"
proof -
  let ?st = "(ex_state [ex_entry ''web'' R_NO 100 True])\<lparr>wait_rets := [(0, 0), (100, 0)]\<rparr>"
  have "stop_service (Some 0) (stop_service (Some 0) ?st) = stop_service (Some 0) ?st"
    using stop_service_idempotent [of "Some 0" ?st] by blast
  moreover have "trace (stop_service (Some 0) ?st) =
     [EvKill (- 100) SIGTERM, EvWaitpid 100, EvUsleep 100000, EvWaitpid 100, EvWaitpid 100,
      EvKill (- 100) SIGKILL, EvPrintf (Stopped ''web'' 100)]"
    by (simp add: stop_service_def stop_poll.simps sys_waitpid_def emit_def set_slot_def
        ex_state_def ex_entry_def Let_def)
  moreover have "services (stop_service (Some 0) ?st) = [ex_entry ''web'' R_NO 100 False]"
    by (simp add: stop_service_def stop_poll.simps sys_waitpid_def emit_def set_slot_def
        ex_state_def ex_entry_def Let_def)
  ultimately show ?thesis by simp
qed

end
